theory Spec2Isabelle
  imports Main "HOL-Library.Sublist" "HOL-Library.Char_ord" "HOL-Library.List_Lexorder"
begin

section \<open>Strings and POSIX path functions used by the consolidator\<close>

text \<open>
  Python strings are modelled as \<^typ>\<open>string\<close>, with characters of eight bits; \<open>sorted\<close>
  on strings compares code points lexicographically, which is the order of
  \<open>HOL-Library.List_Lexorder\<close> over \<open>HOL-Library.Char_ord\<close>. The path functions follow
  \<open>posixpath\<close> (\<open>os.sep = '/'\<close>). Exceptions are values of the type \<open>error\<close>.
\<close>

datatype error = ValueError string | OSError string

text \<open>\<open>s.split(sep)\<close> for a one-character separator.\<close>

fun split_sep :: "char \<Rightarrow> string \<Rightarrow> string list" where
  "split_sep sep [] = [[]]"
| "split_sep sep (x # xs) =
     (if x = sep then [] # split_sep sep xs
      else (case split_sep sep xs of
              [] \<Rightarrow> [[x]]
            | w # ws \<Rightarrow> (x # w) # ws))"

text \<open>\<open>sep.join(xs)\<close>.\<close>

fun str_join :: "string \<Rightarrow> string list \<Rightarrow> string" where
  "str_join sep [] = []"
| "str_join sep [x] = x"
| "str_join sep (x # y # ys) = x @ sep @ str_join sep (y # ys)"

definition startswith :: "string \<Rightarrow> string \<Rightarrow> bool" where
  "startswith s p = prefix p s"

definition endswith :: "string \<Rightarrow> string \<Rightarrow> bool" where
  "endswith s e = suffix e s"

definition lstrip :: "char \<Rightarrow> string \<Rightarrow> string" where
  "lstrip c s = dropWhile (\<lambda>x. x = c) s"

text \<open>\<open>os.path.join(a, b)\<close>.\<close>

definition path_join :: "string \<Rightarrow> string \<Rightarrow> string" where
  "path_join a b =
     (if startswith b ''/'' then b
      else if a = [] \<or> endswith a ''/'' then a @ b
      else a @ ''/'' @ b)"

text \<open>One round of the loop of \<open>os.path.normpath\<close> over the components of a path.\<close>

definition norm_step :: "bool \<Rightarrow> string list \<Rightarrow> string \<Rightarrow> string list" where
  "norm_step initial_slashes new_comps part =
     (if part = [] \<or> part = ''.'' then new_comps
      else if part \<noteq> ''..'' \<or> (\<not> initial_slashes \<and> new_comps = [])
              \<or> (new_comps \<noteq> [] \<and> last new_comps = ''..'')
           then new_comps @ [part]
      else if new_comps \<noteq> [] then butlast new_comps
      else new_comps)"

definition normpath :: "string \<Rightarrow> string" where
  "normpath path =
     (if path = [] then ''.''
      else
        let initial_slashes =
              (if startswith path ''/''
               then (if startswith path ''//'' \<and> \<not> startswith path ''///''
                     then 2 else 1 :: nat)
               else 0);
            comps = split_sep (CHR ''/'') path;
            new_comps = foldl (norm_step (initial_slashes \<noteq> 0)) [] comps;
            path' = replicate initial_slashes (CHR ''/'') @ str_join ''/'' new_comps
        in if path' = [] then ''.'' else path')"

text \<open>\<open>os.path.abspath(path)\<close>, with the working directory as a parameter.\<close>

definition abspath :: "string \<Rightarrow> string \<Rightarrow> string" where
  "abspath cwd path =
     normpath (if \<not> startswith path ''/'' then path_join cwd path else path)"

text \<open>Length of the common prefix: \<open>len(commonprefix([xs, ys]))\<close>.\<close>

fun commonprefix :: "'a list \<Rightarrow> 'a list \<Rightarrow> 'a list" where
  "commonprefix (x # xs) (y # ys) = (if x = y then x # commonprefix xs ys else [])"
| "commonprefix _ _ = []"

text \<open>\<open>os.path.relpath(path, start)\<close>; it raises \<open>ValueError\<close> on an empty path.\<close>

definition relpath :: "string \<Rightarrow> string \<Rightarrow> string \<Rightarrow> error + string" where
  "relpath cwd path start =
     (if path = [] then Inl (ValueError ''no path specified'')
      else
        let start_tail = lstrip (CHR ''/'') (abspath cwd start);
            path_tail = lstrip (CHR ''/'') (abspath cwd path);
            start_list = (if start_tail \<noteq> [] then split_sep (CHR ''/'') start_tail else []);
            path_list = (if path_tail \<noteq> [] then split_sep (CHR ''/'') path_tail else []);
            i = length (commonprefix start_list path_list);
            rel_list = replicate (length start_list - i) ''..'' @ drop i path_list
        in if rel_list = [] then Inr ''.'' else Inr (str_join ''/'' rel_list))"

section \<open>The file system seen by the walk\<close>

text \<open>
  A directory entry is a file, carrying what \<open>open(..., 'r', encoding='utf-8')\<close> followed
  by \<open>read()\<close> gives for it (\<open>Inr\<close> the text, \<open>Inl\<close> the message of the exception raised), or
  a directory, carrying its listing in \<open>scandir\<close> order (\<open>None\<close> when it cannot be listed,
  or is a symbolic link, which \<open>os.walk\<close> names among \<open>dirs\<close> but does not enter).
\<close>

datatype entry =
    File string "string + string"
  | Dir string "entry list option"

fun dirnames :: "entry list \<Rightarrow> string list" where
  "dirnames [] = []"
| "dirnames (Dir name sub # es) = name # dirnames es"
| "dirnames (File name outcome # es) = dirnames es"

fun filenames :: "entry list \<Rightarrow> (string \<times> (string + string)) list" where
  "filenames [] = []"
| "filenames (Dir name sub # es) = filenames es"
| "filenames (File name outcome # es) = (name, outcome) # filenames es"

text \<open>
  \<open>os.walk(tp)\<close>, top-down, \<open>onerror=None\<close>: a directory that cannot be listed yields
  nothing and raises nothing. The caller's in-place update of \<open>dirs\<close> is the parameter
  \<open>prune\<close>; the walk descends into the sub-directories whose names are left, in order.
  File names come with the outcome of reading them.
\<close>

fun os_walk :: "(string list \<Rightarrow> string list) \<Rightarrow> string \<Rightarrow> entry list option
                  \<Rightarrow> (string \<times> string list \<times> (string \<times> (string + string)) list) list"
and walk_subdirs :: "(string list \<Rightarrow> string list) \<Rightarrow> string \<Rightarrow> string list \<Rightarrow> entry list
                  \<Rightarrow> (string \<times> string list \<times> (string \<times> (string + string)) list) list"
where
  "os_walk prune tp None = []"
| "os_walk prune tp (Some es) =
     (tp, dirnames es, filenames es) # walk_subdirs prune tp (prune (dirnames es)) es"
| "walk_subdirs prune tp dirs [] = []"
| "walk_subdirs prune tp dirs (File name outcome # es) = walk_subdirs prune tp dirs es"
| "walk_subdirs prune tp dirs (Dir name sub # es) =
     (if name \<in> set dirs then os_walk prune (path_join tp name) sub else [])
     @ walk_subdirs prune tp dirs es"

section \<open>The consolidator\<close>

definition should_skip_directory :: "string \<Rightarrow> bool" where
  "should_skip_directory dir_name =
     (dir_name \<in> set [''build'', ''.gradle'', ''.idea'', ''out'', ''target'', ''bin''])"

definition skip_extensions :: "string list" where
  "skip_extensions =
     [''.class'', ''.jar'', ''.war'', ''.ear'', ''.zip'', ''.tar'', ''.gz'',
      ''.pyc'', ''.pyo'', ''.pyd'', ''.dll'', ''.so'', ''.dylib'',
      ''.log'', ''.tmp'', ''.swp'', ''.DS_Store'']"

definition should_skip_file :: "string \<Rightarrow> bool" where
  "should_skip_file file_name =
     (list_ex (\<lambda>ext. endswith file_name ext) skip_extensions
      \<or> file_name \<in> set [''Cargo.lock''])"

definition nl :: string where
  "nl = [CHR 0x0A]"

text \<open>A loop whose body may raise: the first error ends it.\<close>

fun for_each :: "('s \<Rightarrow> 'a \<Rightarrow> error + 's) \<Rightarrow> 's \<Rightarrow> 'a list \<Rightarrow> error + 's" where
  "for_each body s [] = Inr s"
| "for_each body s (x # xs) =
     (case body s x of Inl e \<Rightarrow> Inl e | Inr s' \<Rightarrow> for_each body s' xs)"

text \<open>The body of the inner loop of \<open>collect_code\<close>, for one file of \<open>sorted(files)\<close>.\<close>

definition visit_file ::
  "string \<Rightarrow> string \<Rightarrow> string \<Rightarrow> string list \<Rightarrow> string \<times> (string + string)
     \<Rightarrow> error + string list" where
  "visit_file cwd start_path root output f =
     (case f of (file, outcome) \<Rightarrow>
        if should_skip_file file then Inr output
        else
          (let file_path = path_join root file in
           (case relpath cwd file_path start_path of
              Inl e \<Rightarrow> Inl e
            | Inr relative_path \<Rightarrow>
                (case outcome of
                   Inr content \<Rightarrow>
                     Inr (output @ [''File: '' @ relative_path,
                                    replicate 80 (CHR ''=''),
                                    content,
                                    nl @ replicate 80 (CHR ''='') @ nl @ nl])
                 | Inl msg \<Rightarrow>
                     Inr (output @ [''Error reading '' @ relative_path @ '': '' @ msg @ nl])))))"

text \<open>
  The body of the outer loop, after the pruning of \<open>dirs\<close>. \<open>sorted(files)\<close> sorts the
  names; here each name carries the outcome of reading the file, and names are distinct
  within a directory, so the entries are sorted by name.
\<close>

definition visit_dir ::
  "string \<Rightarrow> string \<Rightarrow> string list
     \<Rightarrow> string \<times> string list \<times> (string \<times> (string + string)) list
     \<Rightarrow> error + string list" where
  "visit_dir cwd start_path output t =
     (case t of (root, dirs, files) \<Rightarrow>
        if list_ex (\<lambda>skip_dir. skip_dir \<in> set (split_sep (CHR ''/'') root))
             [''.git'', ''build'', ''.gradle'', ''.idea'', ''vendor'']
        then Inr output
        else for_each (visit_file cwd start_path root) output (sort_key fst files))"

definition prune_dirs :: "string list \<Rightarrow> string list" where
  "prune_dirs dirs = [d \<leftarrow> dirs. \<not> should_skip_directory d]"

definition banner :: "string \<Rightarrow> string list" where
  "banner now =
     [''Code consolidated on: '' @ now @ nl,
      ''Project structure and contents:'' @ nl,
      replicate 80 (CHR ''='') @ nl @ nl]"

text \<open>
  The report buffer at the end of the loop, and \<open>collect_code\<close>. \<open>now\<close> is
  \<open>str(datetime.datetime.now())\<close>, \<open>cwd\<close> the working directory, \<open>fs\<close> the directory at
  \<open>start_path\<close>.
\<close>

definition collect_output ::
  "string \<Rightarrow> string \<Rightarrow> entry list option \<Rightarrow> string \<Rightarrow> error + string list" where
  "collect_output cwd start_path fs now =
     for_each (visit_dir cwd start_path) (banner now) (os_walk prune_dirs start_path fs)"

definition collect_code ::
  "string \<Rightarrow> string \<Rightarrow> entry list option \<Rightarrow> string \<Rightarrow> error + string" where
  "collect_code cwd start_path fs now =
     (case collect_output cwd start_path fs now of
        Inl e \<Rightarrow> Inl e
      | Inr output \<Rightarrow> Inr (str_join nl output))"

text \<open>What a run that ends normally has done: the file written and the line printed.\<close>

record finished =
  written_name :: string
  written_text :: string
  printed :: string

text \<open>
  What \<open>main\<close> meets outside the program: the result of \<open>os.getcwd()\<close>, the directory
  there, the time, whether opening and writing a file with a given name and text raises
  (\<open>None\<close> when it succeeds), whether \<open>print\<close> of a given text raises, and whether, when the
  interpreter exits after \<open>main\<close> has ended in a given way, the flush of the standard
  streams fails (text that \<open>print\<close> left in the buffer of standard output, or a traceback
  on standard error, that cannot be written).
\<close>

record world =
  getcwd :: "error + string"
  tree :: "entry list option"
  clock :: string
  write_error :: "string \<Rightarrow> string \<Rightarrow> error option"
  print_error :: "string \<Rightarrow> error option"
  flush_fails :: "error + finished \<Rightarrow> bool"

text \<open>
  \<open>main\<close>. No exception is caught in it, so an error of \<open>os.getcwd\<close>, of \<open>collect_code\<close>,
  of the write or of the final \<open>print\<close> is the result of the run.
\<close>

definition main :: "world \<Rightarrow> error + finished" where
  "main w =
     (case getcwd w of
        Inl e \<Rightarrow> Inl e
      | Inr current_dir \<Rightarrow>
          (case collect_code current_dir current_dir (tree w) (clock w) of
             Inl e \<Rightarrow> Inl e
           | Inr output \<Rightarrow>
               (case write_error w ''project_code_consolidated.txt'' output of
                  Some e \<Rightarrow> Inl e
                | None \<Rightarrow>
                    (case print_error w
                            (''Code has been consolidated into project_code_consolidated.txt'' @ nl) of
                       Some e \<Rightarrow> Inl e
                     | None \<Rightarrow>
                         Inr \<lparr>written_name = ''project_code_consolidated.txt'',
                              written_text = output,
                              printed =
                                ''Code has been consolidated into project_code_consolidated.txt''
                                @ nl\<rparr>))))"

text \<open>
  The exit status of the process: 120 when the flush of the standard streams fails at the
  exit of the interpreter; otherwise 1 after an exception that nothing caught, and 0 after
  a normal end of \<open>main\<close>.
\<close>

definition exit_status :: "world \<Rightarrow> nat" where
  "exit_status w =
     (if flush_fails w (main w) then 120
      else (case main w of Inl e \<Rightarrow> 1 | Inr fin \<Rightarrow> 0))"

section \<open>Vocabulary of the properties\<close>

text \<open>
  Names as \<open>scandir\<close> gives them: not empty, without a slash, and neither \<open>.\<close> nor
  \<open>..\<close>.
\<close>

definition valid_name :: "string \<Rightarrow> bool" where
  "valid_name n \<longleftrightarrow> n \<noteq> [] \<and> CHR ''/'' \<notin> set n \<and> n \<noteq> ''.'' \<and> n \<noteq> ''..''"

fun valid_tree :: "entry list option \<Rightarrow> bool"
and valid_entries :: "entry list \<Rightarrow> bool" where
  "valid_tree None = True"
| "valid_tree (Some es) = valid_entries es"
| "valid_entries [] = True"
| "valid_entries (File name outcome # es) = (valid_name name \<and> valid_entries es)"
| "valid_entries (Dir name sub # es) = (valid_name name \<and> valid_tree sub \<and> valid_entries es)"

definition appended :: "string list \<Rightarrow> error + string list \<Rightarrow> error + string list" where
  "appended out r = (case r of Inl e \<Rightarrow> Inl e | Inr segs \<Rightarrow> Inr (out @ segs))"

text \<open>The report without its first line, which is the timestamp line.\<close>

definition after_first_line :: "string \<Rightarrow> string" where
  "after_first_line s = tl (dropWhile (\<lambda>c. c \<noteq> CHR 0x0A) s)"

definition report_body :: "error + string \<Rightarrow> error + string" where
  "report_body r = (case r of Inl e \<Rightarrow> Inl e | Inr s \<Rightarrow> Inr (after_first_line s))"

fun drop_skipped :: "entry list option \<Rightarrow> entry list option"
and drop_skipped_entries :: "entry list \<Rightarrow> entry list" where
  "drop_skipped None = None"
| "drop_skipped (Some es) = Some (drop_skipped_entries es)"
| "drop_skipped_entries [] = []"
| "drop_skipped_entries (File name outcome # es) =
     (if should_skip_file name then drop_skipped_entries es
      else File name outcome # drop_skipped_entries es)"
| "drop_skipped_entries (Dir name sub # es) = Dir name (drop_skipped sub) # drop_skipped_entries es"

text \<open>
  A start path as \<open>os.getcwd()\<close> gives it: absolute, and left as it is by \<open>normpath\<close>.
\<close>

definition abs_normal :: "string \<Rightarrow> bool" where
  "abs_normal p \<longleftrightarrow> startswith p ''/'' \<and> normpath p = p"

text \<open>The path made of one or two leading slashes and the given components.\<close>

definition rooted :: "nat \<Rightarrow> string list \<Rightarrow> string" where
  "rooted k cs = replicate k (CHR ''/'') @ str_join ''/'' cs"

text \<open>
  What the glossary calls a block, and the line written for a file that could not be
  read; \<open>rel_path ds name\<close> is the path of the file \<open>name\<close> below the directories \<open>ds\<close>.
\<close>

definition rel_path :: "string list \<Rightarrow> string \<Rightarrow> string" where
  "rel_path ds name = str_join ''/'' (ds @ [name])"

definition block :: "string \<Rightarrow> string \<Rightarrow> string list" where
  "block rel content =
     [''File: '' @ rel, replicate 80 (CHR ''=''), content, nl @ replicate 80 (CHR ''='') @ nl @ nl]"

definition error_line :: "string \<Rightarrow> string \<Rightarrow> string" where
  "error_line rel msg = ''Error reading '' @ rel @ '': '' @ msg @ nl"

definition render :: "string list \<Rightarrow> string \<times> (string + string) \<Rightarrow> string list" where
  "render ds f =
     (case f of (name, outcome) \<Rightarrow>
        (case outcome of
           Inr content \<Rightarrow> block (rel_path ds name) content
         | Inl msg \<Rightarrow> [error_line (rel_path ds name) msg]))"

text \<open>The second exclusion check, on a list of path segments.\<close>

definition path_excluded :: "string list \<Rightarrow> bool" where
  "path_excluded segs =
     list_ex (\<lambda>skip_dir. skip_dir \<in> set segs) [''.git'', ''build'', ''.gradle'', ''.idea'', ''vendor'']"

text \<open>
  The directories that the pruned walk reaches, each with the names of the directories
  that lead to it from the start.
\<close>

fun visited :: "entry list option
    \<Rightarrow> (string list \<times> string list \<times> (string \<times> (string + string)) list) list"
and visited_subdirs :: "entry list
    \<Rightarrow> (string list \<times> string list \<times> (string \<times> (string + string)) list) list" where
  "visited None = []"
| "visited (Some es) = ([], dirnames es, filenames es) # visited_subdirs es"
| "visited_subdirs [] = []"
| "visited_subdirs (File name outcome # es) = visited_subdirs es"
| "visited_subdirs (Dir name sub # es) =
     (if should_skip_directory name then []
      else map (\<lambda>(ds, t). (name # ds, t)) (visited sub))
     @ visited_subdirs es"

text \<open>The files that reach the report, in the order of the report.\<close>

definition included ::
  "string \<Rightarrow> entry list option \<Rightarrow> (string list \<times> string \<times> (string + string)) list" where
  "included start_path fs =
     concat (map (\<lambda>(ds, dirs, files).
                    map (Pair ds) [f \<leftarrow> sort_key fst files. \<not> should_skip_file (fst f)])
               [v \<leftarrow> visited fs. \<not> path_excluded (split_sep (CHR ''/'') start_path @ fst v)])"

text \<open>
  \<open>file_at fs ds f\<close>: the tree holds the file \<open>f\<close> (its name and what reading it gives) in
  the directory reached from the start through the directories named \<open>ds\<close>.
\<close>

fun file_at :: "entry list option \<Rightarrow> string list \<Rightarrow> string \<times> (string + string) \<Rightarrow> bool"
and file_in :: "entry list \<Rightarrow> string list \<Rightarrow> string \<times> (string + string) \<Rightarrow> bool" where
  "file_at None ds f = False"
| "file_at (Some es) ds f = file_in es ds f"
| "file_in [] ds f = False"
| "file_in (File name outcome # es) ds f = ((ds = [] \<and> f = (name, outcome)) \<or> file_in es ds f)"
| "file_in (Dir name sub # es) ds f =
     ((case ds of [] \<Rightarrow> False | d # ds' \<Rightarrow> d = name \<and> file_at sub ds' f) \<or> file_in es ds f)"

text \<open>Whether a text occurs in the report of a run.\<close>

definition mentions :: "string \<Rightarrow> error + string \<Rightarrow> bool" where
  "mentions s r = (case r of Inl e \<Rightarrow> False | Inr report \<Rightarrow> sublist s report)"

text \<open>The tree of the end-to-end example of the specification.\<close>

definition example_entries :: "entry list" where
  "example_entries =
     [Dir ''src'' (Some [File ''main.txt'' (Inr ''hello'')]),
      Dir ''build'' (Some [File ''ignored.txt'' (Inr ''x'')]),
      File ''Cargo.lock'' (Inr ''y'')]"

text \<open>The same three entries in the six orders in which the start directory may list them.\<close>

definition example_listings :: "entry list list" where
  "example_listings =
     (let s = Dir ''src'' (Some [File ''main.txt'' (Inr ''hello'')]);
          b = Dir ''build'' (Some [File ''ignored.txt'' (Inr ''x'')]);
          c = File ''Cargo.lock'' (Inr ''y'')
      in [[s, b, c], [s, c, b], [b, s, c], [b, c, s], [c, s, b], [c, b, s]])"

text \<open>The block of \<open>src/main.txt\<close> as it stands in the text of the report.\<close>

definition main_txt_block :: string where
  "main_txt_block =
     ''File: src/main.txt'' @ nl @ replicate 80 (CHR ''='') @ nl @ ''hello'' @ nl @ nl
     @ replicate 80 (CHR ''='') @ nl"

text \<open>
  A world in which the start directory cannot be listed, while the write, the \<open>print\<close> and
  the flush at exit succeed.
\<close>

definition unlistable_world :: world where
  "unlistable_world =
     \<lparr>getcwd = Inr ''/srv/app'', tree = None, clock = ''2024-01-01 10:00:00'',
      write_error = (\<lambda>name text. None), print_error = (\<lambda>text. None),
      flush_fails = (\<lambda>r. False)\<rparr>"

section \<open>Properties\<close>

subsection \<open>The loops only append\<close>

lemma appended_simps [simp]:
  "appended out (Inl e) = Inl e" "appended out (Inr segs) = Inr (out @ segs)"
  by (simp_all add: appended_def)

lemma for_each_appended:
  assumes "\<And>s x. body s x = appended s (body [] x)"
  shows "for_each body s xs = appended s (for_each body [] xs)"
proof (induction xs arbitrary: s)
  case Nil
  show ?case by simp
next
  case (Cons x xs)
  show ?case
  proof (cases "body [] x")
    case (Inl e)
    then show ?thesis using assms [of s x] by simp
  next
    case (Inr g)
    have 1: "body s x = Inr (s @ g)" using assms [of s x] Inr by simp
    have 2: "for_each body (s @ g) xs = appended (s @ g) (for_each body [] xs)"
      by (rule Cons.IH)
    have 3: "for_each body g xs = appended g (for_each body [] xs)"
      by (rule Cons.IH)
    show ?thesis using 1 2 3 Inr by (cases "for_each body [] xs") simp_all
  qed
qed

lemma visit_file_appended:
  "visit_file cwd start root out f = appended out (visit_file cwd start root [] f)"
  by (cases f) (simp add: visit_file_def Let_def split: sum.splits)

lemma visit_dir_appended:
  "visit_dir cwd start out t = appended out (visit_dir cwd start [] t)"
proof (cases t)
  case (fields root dirs files)
  have "for_each (visit_file cwd start root) out xs
          = appended out (for_each (visit_file cwd start root) [] xs)" for xs
    by (rule for_each_appended) (rule visit_file_appended)
  then show ?thesis
    unfolding fields visit_dir_def prod.case by simp
qed

lemma collect_output_appended:
  "collect_output cwd start fs now =
     appended (banner now) (for_each (visit_dir cwd start) [] (os_walk prune_dirs start fs))"
  unfolding collect_output_def
  by (rule for_each_appended) (rule visit_dir_appended)

lemma str_join_Cons: "str_join sep (x # xs) = (if xs = [] then x else x @ sep @ str_join sep xs)"
  by (cases xs) simp_all

lemma after_first_line_banner:
  assumes "CHR 0x0A \<notin> set now"
  shows "after_first_line (str_join nl (banner now @ segs))
           = nl @ str_join nl ((''Project structure and contents:'' @ nl) # (replicate 80 (CHR ''='') @ nl @ nl) # segs)"
proof -
  have "dropWhile (\<lambda>c. c \<noteq> CHR 0x0A) (''Code consolidated on: '' @ now @ CHR 0x0A # rest)
          = CHR 0x0A # rest" for rest
    using assms by (auto simp: dropWhile_append3)
  then show ?thesis
    by (simp add: after_first_line_def banner_def str_join_Cons nl_def)
qed

text \<open>
  Claim C8. Two runs over the same tree, at two different times, give reports that are
  equal once the first line, which holds the timestamp, is taken off: the timestamp is the
  only thing in the report that depends on the time of the run. (The string form of a
  timestamp has no line break.)
\<close>

theorem timestamp_only_in_first_line:
  assumes "CHR 0x0A \<notin> set t1" and "CHR 0x0A \<notin> set t2"
  shows "report_body (collect_code cwd start fs t1) = report_body (collect_code cwd start fs t2)"
proof (cases "for_each (visit_dir cwd start) [] (os_walk prune_dirs start fs)")
  case (Inl e)
  then show ?thesis
    by (simp add: collect_code_def collect_output_appended report_body_def)
next
  case (Inr segs)
  then show ?thesis
    using after_first_line_banner [OF assms(1), of segs] after_first_line_banner [OF assms(2), of segs]
    by (simp add: collect_code_def collect_output_appended report_body_def)
qed

theorem timestamp_only_in_first_line_witness:
  "CHR 0x0A \<notin> set ''2024-01-01 10:00:00'' \<and> CHR 0x0A \<notin> set ''2025-06-30 23:59:59.123456''
   \<and> report_body (collect_code ''/p'' ''/p'' (Some [File ''a.txt'' (Inr ''hi'')]) ''2024-01-01 10:00:00'')
     = report_body (collect_code ''/p'' ''/p'' (Some [File ''a.txt'' (Inr ''hi'')])
         ''2025-06-30 23:59:59.123456'')"
proof -
  have 1: "CHR 0x0A \<notin> set ''2024-01-01 10:00:00''" by simp
  have 2: "CHR 0x0A \<notin> set ''2025-06-30 23:59:59.123456''" by simp
  show ?thesis using 1 2 timestamp_only_in_first_line [OF 1 2] by blast
qed

subsection \<open>Splitting and joining\<close>

lemma split_sep_not_Nil [simp]: "split_sep c s \<noteq> []"
  by (induction s) (auto split: list.splits)

lemma split_sep_append:
  "split_sep c (a @ c # b) = split_sep c a @ split_sep c b"
proof (induction a)
  case Nil
  show ?case by simp
next
  case (Cons x a)
  obtain w ws where w: "split_sep c a = w # ws"
    by (cases "split_sep c a") simp_all
  show ?case using Cons w by simp
qed

lemma split_sep_no_sep: "c \<notin> set s \<Longrightarrow> split_sep c s = [s]"
  by (induction s) auto

lemma segment_kept_by_path_join:
  assumes "seg \<noteq> []" and "seg \<in> set (split_sep (CHR ''/'') r)" and "\<not> startswith name ''/''"
  shows "seg \<in> set (split_sep (CHR ''/'') (path_join r name))"
proof (cases "r = [] \<or> endswith r ''/''")
  case False
  then have "path_join r name = r @ CHR ''/'' # name"
    using assms(3) by (simp add: path_join_def)
  then show ?thesis using assms(2) by (simp add: split_sep_append)
next
  case True
  then show ?thesis
  proof
    assume "r = []"
    then show ?thesis using assms by simp
  next
    assume "endswith r ''/''"
    then obtain r' where r: "r = r' @ ''/''"
      by (auto simp: endswith_def suffix_def)
    have "split_sep (CHR ''/'') r = split_sep (CHR ''/'') r' @ [[]]"
      using split_sep_append [of "CHR ''/''" r' "[]"] r by simp
    then have "seg \<in> set (split_sep (CHR ''/'') r')"
      using assms(1,2) by auto
    moreover have "path_join r name = r' @ CHR ''/'' # name"
      using assms(3) r by (simp add: path_join_def endswith_def)
    ultimately show ?thesis by (simp add: split_sep_append)
  qed
qed

lemma valid_name_not_abs: "valid_name name \<Longrightarrow> \<not> startswith name ''/''"
  by (auto simp: valid_name_def startswith_def prefix_def)

lemma walk_roots_keep_segment:
  assumes "seg \<noteq> []"
  shows "valid_tree fs \<Longrightarrow> seg \<in> set (split_sep (CHR ''/'') tp)
           \<Longrightarrow> t \<in> set (os_walk prune tp fs) \<Longrightarrow> seg \<in> set (split_sep (CHR ''/'') (fst t))"
    and "valid_entries es \<Longrightarrow> seg \<in> set (split_sep (CHR ''/'') tp)
           \<Longrightarrow> t \<in> set (walk_subdirs prune tp dirs es) \<Longrightarrow> seg \<in> set (split_sep (CHR ''/'') (fst t))"
proof (induction prune tp fs and prune tp dirs es arbitrary: t and t rule: os_walk_walk_subdirs.induct)
  case (1 prune tp)
  then show ?case by simp
next
  case (2 prune tp es)
  then show ?case by (cases t) auto
next
  case (3 prune tp dirs)
  then show ?case by simp
next
  case (4 prune tp dirs name outcome es)
  then show ?case by simp
next
  case (5 prune tp dirs name sub es)
  from "5.prems"(3) consider
      (here) "name \<in> set dirs" "t \<in> set (os_walk prune (path_join tp name) sub)"
    | (later) "t \<in> set (walk_subdirs prune tp dirs es)"
    by (auto split: if_splits)
  then show ?case
  proof cases
    case here
    have "seg \<in> set (split_sep (CHR ''/'') (path_join tp name))"
      using assms "5.prems"(1,2) by (simp add: segment_kept_by_path_join valid_name_not_abs)
    then show ?thesis using "5.IH"(1) [OF here(1) _ _ here(2)] "5.prems"(1) by simp
  next
    case later
    then show ?thesis using "5.IH"(2) "5.prems"(1,2) by simp
  qed
qed

lemma for_each_unchanged:
  "(\<And>x. x \<in> set xs \<Longrightarrow> body s x = Inr s) \<Longrightarrow> for_each body s xs = Inr s"
  by (induction xs) simp_all

lemma visit_dir_banned:
  assumes "seg \<in> set [''.git'', ''build'', ''.gradle'', ''.idea'', ''vendor'']"
      and "seg \<in> set (split_sep (CHR ''/'') (fst t))"
  shows "visit_dir cwd start out t = Inr out"
proof -
  obtain root dirs files where t: "t = (root, dirs, files)" by (cases t)
  have "list_ex (\<lambda>skip_dir. skip_dir \<in> set (split_sep (CHR ''/'') root))
          [''.git'', ''build'', ''.gradle'', ''.idea'', ''vendor'']"
    unfolding list_ex_iff using assms t by auto
  then show ?thesis unfolding t visit_dir_def by simp
qed

text \<open>
  Claim C9. The second exclusion check of the loop splits the whole path of the visited
  directory, the start path included. So when a segment of the start path itself is
  \<open>.git\<close>, \<open>build\<close>, \<open>.gradle\<close>, \<open>.idea\<close> or \<open>vendor\<close>, every directory of the walk is
  passed over: the buffer is left as the banner, and the report has no file block and no
  error line, whatever the tree holds.
\<close>

theorem excluded_segment_in_start_path_empties_report:
  assumes "valid_tree fs"
      and "seg \<in> set [''.git'', ''build'', ''.gradle'', ''.idea'', ''vendor'']"
      and "seg \<in> set (split_sep (CHR ''/'') start_path)"
  shows "collect_output cwd start_path fs now = Inr (banner now)
       \<and> collect_code cwd start_path fs now =
           Inr (''Code consolidated on: '' @ now @ nl @ nl
                @ ''Project structure and contents:'' @ nl @ nl
                @ replicate 80 (CHR ''='') @ nl @ nl)"
proof -
  have ne: "seg \<noteq> []" using assms(2) by auto
  have "visit_dir cwd start_path (banner now) t = Inr (banner now)"
    if "t \<in> set (os_walk prune_dirs start_path fs)" for t
    using visit_dir_banned [OF assms(2)] walk_roots_keep_segment(1) [OF ne assms(1,3) that]
    by simp
  then have 1: "collect_output cwd start_path fs now = Inr (banner now)"
    unfolding collect_output_def by (rule for_each_unchanged)
  then show ?thesis by (simp add: collect_code_def banner_def)
qed

theorem excluded_segment_in_start_path_empties_report_witness:
  "valid_tree (Some [File ''main.py'' (Inr ''print(1)''), Dir ''src'' (Some [File ''a.txt'' (Inl ''denied'')])])
   \<and> ''build'' \<in> set [''.git'', ''build'', ''.gradle'', ''.idea'', ''vendor'']
   \<and> ''build'' \<in> set (split_sep (CHR ''/'') ''/srv/build/proj'')
   \<and> collect_code ''/srv/build/proj'' ''/srv/build/proj''
        (Some [File ''main.py'' (Inr ''print(1)''), Dir ''src'' (Some [File ''a.txt'' (Inl ''denied'')])])
        ''2024-01-01 10:00:00''
      = Inr (''Code consolidated on: 2024-01-01 10:00:00'' @ nl @ nl
                @ ''Project structure and contents:'' @ nl @ nl
                @ replicate 80 (CHR ''='') @ nl @ nl)"
proof -
  have 1: "valid_tree (Some [File ''main.py'' (Inr ''print(1)''), Dir ''src'' (Some [File ''a.txt'' (Inl ''denied'')])])"
    by (simp add: valid_name_def)
  have 2: "''build'' \<in> set [''.git'', ''build'', ''.gradle'', ''.idea'', ''vendor'']" by simp
  have 3: "''build'' \<in> set (split_sep (CHR ''/'') ''/srv/build/proj'')" by simp
  show ?thesis
    using 1 2 3 excluded_segment_in_start_path_empties_report [OF 1 2 3, of "''/srv/build/proj''" "''2024-01-01 10:00:00''"]
    by simp
qed

subsection \<open>Files that the file filter skips\<close>

lemma visit_file_skipped:
  "should_skip_file name \<Longrightarrow> visit_file cwd start root out (name, outcome) = Inr out"
  by (simp add: visit_file_def)

lemma relpath_Inr: "path \<noteq> [] \<Longrightarrow> \<exists>rel. relpath cwd path start = Inr rel"
  by (simp add: relpath_def Let_def)

lemma path_join_not_Nil: "name \<noteq> [] \<Longrightarrow> path_join root name \<noteq> []"
  by (simp add: path_join_def)

lemma visit_file_not_skipped:
  assumes "\<not> should_skip_file name" and "name \<noteq> []"
  shows "\<exists>segs. segs \<noteq> [] \<and> visit_file cwd start root out (name, outcome) = Inr (out @ segs)"
proof -
  obtain rel where "relpath cwd (path_join root name) start = Inr rel"
    using relpath_Inr [OF path_join_not_Nil [OF assms(2)]] by blast
  then show ?thesis using assms(1)
    by (cases outcome) (simp_all add: visit_file_def)
qed

lemma dirnames_drop_skipped [simp]: "dirnames (drop_skipped_entries es) = dirnames es"
  by (induction es rule: dirnames.induct) simp_all

lemma filenames_drop_skipped [simp]:
  "filenames (drop_skipped_entries es) = [f \<leftarrow> filenames es. \<not> should_skip_file (fst f)]"
  by (induction es rule: filenames.induct) simp_all

lemma os_walk_drop_skipped:
  "os_walk prune tp (drop_skipped fs)
     = map (apsnd (apsnd (filter (\<lambda>f. \<not> should_skip_file (fst f))))) (os_walk prune tp fs)"
  "walk_subdirs prune tp dirs (drop_skipped_entries es)
     = map (apsnd (apsnd (filter (\<lambda>f. \<not> should_skip_file (fst f))))) (walk_subdirs prune tp dirs es)"
  by (induction prune tp fs and prune tp dirs es rule: os_walk_walk_subdirs.induct) simp_all

lemma for_each_filter:
  "(\<And>s x. \<not> P x \<Longrightarrow> body s x = Inr s) \<Longrightarrow> for_each body s (filter P xs) = for_each body s xs"
  by (induction xs arbitrary: s) (simp_all split: sum.splits)

lemma for_each_map: "for_each body s (map g xs) = for_each (\<lambda>s x. body s (g x)) s xs"
  by (induction xs arbitrary: s) (simp_all split: sum.splits)

lemma visit_dir_filter_skipped:
  "visit_dir cwd start out (root, dirs, [f \<leftarrow> files. \<not> should_skip_file (fst f)])
     = visit_dir cwd start out (root, dirs, files)"
proof -
  have "for_each (visit_file cwd start root) out
          (filter (\<lambda>f. \<not> should_skip_file (fst f)) (sort_key fst files))
        = for_each (visit_file cwd start root) out (sort_key fst files)"
    by (rule for_each_filter) (auto simp: visit_file_skipped)
  then show ?thesis by (simp add: visit_dir_def filter_sort)
qed

lemma collect_output_drop_skipped:
  "collect_output cwd start (drop_skipped fs) now = collect_output cwd start fs now"
proof -
  have "visit_dir cwd start s (apsnd (apsnd (filter (\<lambda>f. \<not> should_skip_file (fst f)))) t)
          = visit_dir cwd start s t" for s t
    by (cases t) (simp add: visit_dir_filter_skipped)
  then show ?thesis
    by (simp add: collect_output_def os_walk_drop_skipped for_each_map)
qed

text \<open>
  Claim C5. The file filter answers from the name alone: a name is skipped exactly when it
  ends with one of the seventeen listed extensions or is \<open>Cargo.lock\<close>. In the loop a
  skipped file leaves the buffer as it was, whatever reading it would give, and a file that
  is not skipped adds to it. For the whole run, the report is the one the same tree gives
  with every skipped file taken away, so nothing of those files reaches the report.
\<close>

theorem skip_file_by_name_only:
  "(should_skip_file name \<longleftrightarrow>
      (\<exists>ext \<in> {''.class'', ''.jar'', ''.war'', ''.ear'', ''.zip'', ''.tar'', ''.gz'',
                ''.pyc'', ''.pyo'', ''.pyd'', ''.dll'', ''.so'', ''.dylib'',
                ''.log'', ''.tmp'', ''.swp'', ''.DS_Store''}. suffix ext name)
      \<or> name = ''Cargo.lock'')
   \<and> (should_skip_file name \<longrightarrow> visit_file cwd start_path root output (name, outcome) = Inr output)
   \<and> (\<not> should_skip_file name \<and> name \<noteq> [] \<longrightarrow>
        (\<exists>segs. segs \<noteq> [] \<and>
           visit_file cwd start_path root output (name, outcome) = Inr (output @ segs)))
   \<and> collect_code cwd start_path fs now = collect_code cwd start_path (drop_skipped fs) now"
proof -
  have "should_skip_file name \<longleftrightarrow>
      (\<exists>ext \<in> {''.class'', ''.jar'', ''.war'', ''.ear'', ''.zip'', ''.tar'', ''.gz'',
                ''.pyc'', ''.pyo'', ''.pyd'', ''.dll'', ''.so'', ''.dylib'',
                ''.log'', ''.tmp'', ''.swp'', ''.DS_Store''}. suffix ext name)
      \<or> name = ''Cargo.lock''"
    by (simp add: should_skip_file_def skip_extensions_def endswith_def)
  moreover have "collect_code cwd start_path fs now = collect_code cwd start_path (drop_skipped fs) now"
    by (simp add: collect_code_def collect_output_drop_skipped)
  ultimately show ?thesis
    using visit_file_skipped visit_file_not_skipped by blast
qed

theorem skip_file_by_name_only_witness:
  "should_skip_file ''trace.log'' \<and> should_skip_file ''Cargo.lock'' \<and> \<not> should_skip_file ''main.rs''
   \<and> visit_file ''/p'' ''/p'' ''/p'' [''x''] (''trace.log'', Inr ''secret'') = Inr [''x'']
   \<and> collect_code ''/p'' ''/p'' (Some [File ''trace.log'' (Inr ''secret''), File ''main.rs'' (Inr ''fn'')]) ''T''
       = collect_code ''/p'' ''/p'' (Some [File ''main.rs'' (Inr ''fn'')]) ''T''"
proof -
  have 1: "should_skip_file ''trace.log''" by code_simp
  have 2: "should_skip_file ''Cargo.lock''" by code_simp
  have 3: "\<not> should_skip_file ''main.rs''" by code_simp
  have 4: "drop_skipped (Some [File ''trace.log'' (Inr ''secret''), File ''main.rs'' (Inr ''fn'')])
            = Some [File ''main.rs'' (Inr ''fn'')]"
    using 1 3 by simp
  show ?thesis
    using 1 2 3 4
      skip_file_by_name_only [of "''trace.log''" "''/p''" "''/p''" "''/p''" "[''x'']" "Inr ''secret''"
        "Some [File ''trace.log'' (Inr ''secret''), File ''main.rs'' (Inr ''fn'')]" "''T''"]
    by simp
qed

subsection \<open>Paths made of valid names\<close>

lemma split_sep_parts_no_sep: "w \<in> set (split_sep c s) \<Longrightarrow> c \<notin> set w"
  by (induction s arbitrary: w) (auto split: if_splits list.splits)

lemma split_sep_str_join:
  "cs \<noteq> [] \<Longrightarrow> (\<And>x. x \<in> set cs \<Longrightarrow> c \<notin> set x) \<Longrightarrow> split_sep c (str_join [c] cs) = cs"
proof (induction "[c]" cs rule: str_join.induct)
  case 1
  then show ?case by simp
next
  case (2 x)
  then show ?case by (simp add: split_sep_no_sep)
next
  case (3 x y ys)
  have "split_sep c (x @ c # str_join [c] (y # ys)) = split_sep c x @ split_sep c (str_join [c] (y # ys))"
    by (rule split_sep_append)
  then show ?case using 3 by (simp add: split_sep_no_sep)
qed

lemma str_join_snoc: "cs \<noteq> [] \<Longrightarrow> str_join sep (cs @ [x]) = str_join sep cs @ sep @ x"
  by (induction sep cs rule: str_join.induct) simp_all

lemma valid_name_ends:
  assumes "valid_name x"
  shows "x \<noteq> [] \<and> hd x \<noteq> CHR ''/'' \<and> last x \<noteq> CHR ''/''"
proof -
  have ne: "x \<noteq> []" and ns: "CHR ''/'' \<notin> set x"
    using assms by (simp_all add: valid_name_def)
  have "hd x \<in> set x" using ne by (rule hd_in_set)
  moreover have "last x \<in> set x" using ne by (rule last_in_set)
  ultimately show ?thesis using ne ns by metis
qed

lemma str_join_valid_hd:
  "cs \<noteq> [] \<Longrightarrow> list_all valid_name cs
     \<Longrightarrow> str_join ''/'' cs \<noteq> [] \<and> hd (str_join ''/'' cs) \<noteq> CHR ''/''"
proof -
  assume "cs \<noteq> []" and v: "list_all valid_name cs"
  then obtain x xs where cs: "cs = x # xs" by (cases cs) simp_all
  have "x \<noteq> []" "hd x \<noteq> CHR ''/''"
    using v cs valid_name_ends [of x] by simp_all
  then show ?thesis by (simp add: cs str_join_Cons hd_append)
qed

lemma str_join_valid_last:
  "cs \<noteq> [] \<Longrightarrow> list_all valid_name cs \<Longrightarrow> last (str_join ''/'' cs) \<noteq> CHR ''/''"
proof (induction "''/''" cs rule: str_join.induct)
  case 1
  then show ?case by simp
next
  case (2 x)
  then show ?case using valid_name_ends [of x] by simp
next
  case (3 x y ys)
  have "str_join ''/'' (y # ys) \<noteq> []"
    using str_join_valid_hd [of "y # ys"] 3 by simp
  then show ?case using 3 by simp
qed

lemma norm_step_valid: "valid_name x \<Longrightarrow> norm_step b acc x = acc @ [x]"
  by (simp add: norm_step_def valid_name_def)

lemma norm_step_empty: "norm_step b acc [] = acc"
  by (simp add: norm_step_def)

lemma foldl_norm_step_valid:
  "list_all valid_name cs \<Longrightarrow> foldl (norm_step b) acc cs = acc @ cs"
  by (induction cs arbitrary: acc) (simp_all add: norm_step_valid)

lemma foldl_norm_step_empties: "foldl (norm_step b) acc (replicate k []) = acc"
  by (induction k) (simp_all add: norm_step_empty)

lemma norm_step_abs_clean:
  assumes "\<And>x. x \<in> set acc \<Longrightarrow> valid_name x" and "CHR ''/'' \<notin> set part"
  shows "x \<in> set (norm_step True acc part) \<Longrightarrow> valid_name x"
proof -
  have "last acc \<noteq> ''..''" if "acc \<noteq> []"
    using assms(1) [of "last acc"] that by (auto simp: valid_name_def)
  then show "x \<in> set (norm_step True acc part) \<Longrightarrow> valid_name x"
    using assms by (auto simp: norm_step_def valid_name_def dest: in_set_butlastD split: if_splits)
qed

lemma foldl_norm_step_abs_clean:
  "(\<And>x. x \<in> set acc \<Longrightarrow> valid_name x) \<Longrightarrow> (\<And>p. p \<in> set parts \<Longrightarrow> CHR ''/'' \<notin> set p)
     \<Longrightarrow> x \<in> set (foldl (norm_step True) acc parts) \<Longrightarrow> valid_name x"
proof (induction parts arbitrary: acc)
  case Nil
  then show ?case by simp
next
  case (Cons p parts)
  show ?case
  proof (rule Cons.IH [of "norm_step True acc p"])
    show "valid_name y" if "y \<in> set (norm_step True acc p)" for y
      using norm_step_abs_clean [of acc p y] Cons.prems(1,2) that by simp
    show "CHR ''/'' \<notin> set q" if "q \<in> set parts" for q
      using Cons.prems(2) that by simp
    show "x \<in> set (foldl (norm_step True) (norm_step True acc p) parts)"
      using Cons.prems(3) by simp
  qed
qed

lemma abs_normal_rooted:
  assumes "abs_normal p"
  shows "\<exists>k cs. (k = 1 \<or> k = 2) \<and> list_all valid_name cs \<and> p = rooted k cs"
proof -
  define k :: nat where
    "k = (if startswith p ''//'' \<and> \<not> startswith p ''///'' then 2 else 1)"
  define cs where "cs = foldl (norm_step True) [] (split_sep (CHR ''/'') p)"
  have p: "startswith p ''/''" "normpath p = p" using assms by (simp_all add: abs_normal_def)
  then have ne: "p \<noteq> []" by (auto simp: startswith_def)
  have k: "k = 1 \<or> k = 2" by (simp add: k_def)
  then have "replicate k (CHR ''/'') @ str_join ''/'' cs \<noteq> []" by auto
  then have "normpath p = rooted k cs"
    using p(1) ne k by (auto simp: normpath_def Let_def k_def cs_def rooted_def)
  moreover have "list_all valid_name cs"
    unfolding cs_def list_all_iff using foldl_norm_step_abs_clean [of "[]" "split_sep (CHR ''/'') p"]
    by (auto dest: split_sep_parts_no_sep)
  ultimately show ?thesis using k p(2) by metis
qed

lemma split_sep_rooted:
  assumes "list_all valid_name cs"
  shows "split_sep (CHR ''/'') (rooted k cs) = replicate k [] @ (if cs = [] then [[]] else cs)"
proof (induction k)
  case 0
  have "split_sep (CHR ''/'') (str_join ''/'' cs) = cs" if "cs \<noteq> []"
    using split_sep_str_join [of cs "CHR ''/''"] that assms by (auto simp: valid_name_def list_all_iff)
  then show ?case by (simp add: rooted_def)
next
  case (Suc k)
  then show ?case by (simp add: rooted_def)
qed

lemma segment_of_rooted:
  assumes "list_all valid_name cs" and "seg \<noteq> []"
  shows "seg \<in> set (split_sep (CHR ''/'') (rooted k cs)) \<longleftrightarrow> seg \<in> set cs"
  using assms(2) by (auto simp: split_sep_rooted [OF assms(1)])

lemma rooted_Nil: "rooted k [] = replicate k (CHR ''/'')"
  by (simp add: rooted_def)

lemma path_join_rooted:
  assumes "k = 1 \<or> k = 2" and "list_all valid_name cs" and "valid_name name"
  shows "path_join (rooted k cs) name = rooted k (cs @ [name])"
proof (cases "cs = []")
  case True
  have "endswith (replicate k (CHR ''/'')) ''/''"
    using assms(1) by (auto simp: endswith_def suffix_def numeral_2_eq_2)
  then show ?thesis
    using True valid_name_not_abs [OF assms(3)] by (simp add: path_join_def rooted_def)
next
  case False
  have "last (rooted k cs) \<noteq> CHR ''/''"
    using str_join_valid_hd [OF False assms(2)] str_join_valid_last [OF False assms(2)]
    by (simp add: rooted_def)
  moreover have "rooted k cs \<noteq> []"
    using str_join_valid_hd [OF False assms(2)] by (simp add: rooted_def)
  ultimately have "\<not> endswith (rooted k cs) ''/''"
    by (auto simp: endswith_def suffix_def)
  then show ?thesis
    using False valid_name_not_abs [OF assms(3)] \<open>rooted k cs \<noteq> []\<close>
    by (simp add: path_join_def rooted_def str_join_snoc)
qed

lemma foldl_path_join_rooted:
  assumes "k = 1 \<or> k = 2"
  shows "list_all valid_name cs \<Longrightarrow> list_all valid_name ds
           \<Longrightarrow> foldl path_join (rooted k cs) ds = rooted k (cs @ ds)"
proof (induction ds arbitrary: cs)
  case Nil
  then show ?case by simp
next
  case (Cons d ds)
  have "path_join (rooted k cs) d = rooted k (cs @ [d])"
    using path_join_rooted [OF assms, of cs d] Cons.prems by simp
  moreover have "foldl path_join (rooted k (cs @ [d])) ds = rooted k ((cs @ [d]) @ ds)"
    using Cons.prems by (intro Cons.IH) simp_all
  ultimately show ?case by simp
qed

lemma rooted_startswith:
  assumes "k = 1 \<or> k = 2" and "list_all valid_name cs"
  shows "startswith (rooted k cs) ''/''"
    and "startswith (rooted k cs) ''//'' \<and> \<not> startswith (rooted k cs) ''///'' \<longleftrightarrow> k = 2"
proof -
  show "startswith (rooted k cs) ''/''"
    using assms(1) by (auto simp: startswith_def rooted_def numeral_2_eq_2)
  have h: "str_join ''/'' cs = [] \<or> hd (str_join ''/'' cs) \<noteq> CHR ''/''"
    using str_join_valid_hd [OF _ assms(2)] by (cases "cs = []") simp_all
  show "startswith (rooted k cs) ''//'' \<and> \<not> startswith (rooted k cs) ''///'' \<longleftrightarrow> k = 2"
    using assms(1) h
    by (cases "str_join ''/'' cs") (auto simp: startswith_def rooted_def numeral_2_eq_2)
qed

lemma normpath_rooted:
  assumes "k = 1 \<or> k = 2" and "list_all valid_name cs"
  shows "normpath (rooted k cs) = rooted k cs"
proof -
  have ne: "rooted k cs \<noteq> []" using assms(1) by (auto simp: rooted_def)
  have "foldl (norm_step b) [] (split_sep (CHR ''/'') (rooted k cs)) = cs" for b
    using foldl_norm_step_valid [of cs b "[]"] assms(2)
    by (simp add: split_sep_rooted [OF assms(2)] foldl_norm_step_empties norm_step_empty)
  then show ?thesis
    using ne assms(1) rooted_startswith [OF assms]
    by (auto simp: normpath_def Let_def rooted_def)
qed

lemma lstrip_rooted:
  assumes "list_all valid_name cs"
  shows "lstrip (CHR ''/'') (rooted k cs) = str_join ''/'' cs"
proof -
  have "dropWhile (\<lambda>x. x = CHR ''/'') (str_join ''/'' cs) = str_join ''/'' cs"
  proof (cases "cs = []")
    case True
    then show ?thesis by simp
  next
    case False
    then obtain c s where "str_join ''/'' cs = c # s" "c \<noteq> CHR ''/''"
      using str_join_valid_hd [OF False assms] by (cases "str_join ''/'' cs") auto
    then show ?thesis by simp
  qed
  then show ?thesis
    by (simp add: lstrip_def rooted_def dropWhile_append)
qed

lemma commonprefix_append: "commonprefix xs (xs @ ys) = xs"
  by (induction xs) simp_all

lemma relpath_rooted:
  assumes "k = 1 \<or> k = 2" and "list_all valid_name cs"
      and "list_all valid_name ds" and "valid_name name"
  shows "relpath cwd (rooted k (cs @ ds @ [name])) (rooted k cs) = Inr (str_join ''/'' (ds @ [name]))"
proof -
  let ?path = "cs @ ds @ [name]"
  have v: "list_all valid_name ?path" using assms by simp
  have a1: "abspath cwd (rooted k cs) = rooted k cs"
    using rooted_startswith(1) [OF assms(1,2)] normpath_rooted [OF assms(1,2)]
    by (simp add: abspath_def)
  have a2: "abspath cwd (rooted k ?path) = rooted k ?path"
    using rooted_startswith(1) [OF assms(1) v] normpath_rooted [OF assms(1) v]
    by (simp add: abspath_def)
  have s1: "(if str_join ''/'' cs \<noteq> [] then split_sep (CHR ''/'') (str_join ''/'' cs) else []) = cs"
    using split_sep_rooted [OF assms(2), of 0] str_join_valid_hd [OF _ assms(2)]
    by (cases "cs = []") (simp_all add: rooted_def)
  have s2: "(if str_join ''/'' ?path \<noteq> [] then split_sep (CHR ''/'') (str_join ''/'' ?path) else []) = ?path"
    using split_sep_rooted [OF v, of 0] str_join_valid_hd [OF _ v]
    by (simp add: rooted_def)
  have ne: "rooted k ?path \<noteq> []" using assms(1) by (auto simp: rooted_def)
  show ?thesis
    unfolding relpath_def Let_def a1 a2 lstrip_rooted [OF assms(2)] lstrip_rooted [OF v] s1 s2
    using ne by (simp add: commonprefix_append)
qed

subsection \<open>The walk and the directories it reaches\<close>

lemma os_walk_visited_gen:
  assumes p: "\<And>xs n. n \<in> set (prune xs) \<longleftrightarrow> n \<in> set xs \<and> \<not> should_skip_directory n"
  shows "os_walk prune tp fs = map (\<lambda>(ds, t). (foldl path_join tp ds, t)) (visited fs)"
    and "(\<And>n. n \<in> set (dirnames es) \<Longrightarrow> n \<in> set dirs \<longleftrightarrow> \<not> should_skip_directory n)
     \<Longrightarrow> walk_subdirs prune tp dirs es
           = map (\<lambda>(ds, t). (foldl path_join tp ds, t)) (visited_subdirs es)"
  using p
proof (induction prune tp fs and prune tp dirs es rule: os_walk_walk_subdirs.induct)
  case (1 prune tp)
  show ?case by simp
next
  case (2 prune tp es)
  have "walk_subdirs prune tp (prune (dirnames es)) es
          = map (\<lambda>(ds, t). (foldl path_join tp ds, t)) (visited_subdirs es)"
    using "2.prems" by (intro "2.IH") simp_all
  then show ?case by simp
next
  case (3 prune tp dirs)
  show ?case by simp
next
  case (4 prune tp dirs name outcome es)
  then show ?case by simp
next
  case (5 prune tp dirs name sub es)
  have rest: "walk_subdirs prune tp dirs es
          = map (\<lambda>(ds, t). (foldl path_join tp ds, t)) (visited_subdirs es)"
    using "5.prems" by (intro "5.IH"(2)) simp_all
  have here: "name \<in> set dirs \<longleftrightarrow> \<not> should_skip_directory name"
    using "5.prems"(1) [of name] by simp
  show ?case
  proof (cases "should_skip_directory name")
    case True
    then show ?thesis using here rest by simp
  next
    case False
    then have "os_walk prune (path_join tp name) sub
          = map (\<lambda>(ds, t). (foldl path_join (path_join tp name) ds, t)) (visited sub)"
      using here "5.IH"(1) "5.prems"(2) by simp
    then show ?thesis using False here rest by (simp add: case_prod_unfold comp_def)
  qed
qed

lemma os_walk_visited:
  "os_walk prune_dirs tp fs = map (\<lambda>(ds, t). (foldl path_join tp ds, t)) (visited fs)"
  by (rule os_walk_visited_gen(1)) (simp add: prune_dirs_def)

lemma visited_clean:
  "v \<in> set (visited fs) \<Longrightarrow> d \<in> set (fst v) \<Longrightarrow> \<not> should_skip_directory d"
  "v \<in> set (visited_subdirs es) \<Longrightarrow> d \<in> set (fst v) \<Longrightarrow> \<not> should_skip_directory d"
  by (induction fs and es arbitrary: v and v rule: visited_visited_subdirs.induct)
     (auto split: if_splits)

lemma filenames_valid: "valid_entries es \<Longrightarrow> list_all (\<lambda>f. valid_name (fst f)) (filenames es)"
  by (induction es rule: filenames.induct) simp_all

lemma visited_valid:
  "valid_tree fs \<Longrightarrow> (ds, dirs, files) \<in> set (visited fs)
     \<Longrightarrow> list_all valid_name ds \<and> list_all (\<lambda>f. valid_name (fst f)) files"
  "valid_entries es \<Longrightarrow> (ds, dirs, files) \<in> set (visited_subdirs es)
     \<Longrightarrow> list_all valid_name ds \<and> list_all (\<lambda>f. valid_name (fst f)) files"
  by (induction fs and es arbitrary: ds and ds rule: visited_visited_subdirs.induct)
     (auto simp: filenames_valid split: if_splits)

subsection \<open>What one file and one directory add to the buffer\<close>

lemma for_each_emit:
  "(\<And>s x. x \<in> set xs \<Longrightarrow> body s x = Inr (s @ g x))
     \<Longrightarrow> for_each body s xs = Inr (s @ concat (map g xs))"
  by (induction xs arbitrary: s) simp_all

lemma concat_map_if_filter:
  "concat (map (\<lambda>x. if P x then [] else g x) xs) = concat (map g [x \<leftarrow> xs. \<not> P x])"
  by (induction xs) simp_all

lemma visit_file_render:
  assumes "k = 1 \<or> k = 2" and "list_all valid_name cs" and "list_all valid_name ds"
      and "valid_name (fst f)"
  shows "visit_file cwd (rooted k cs) (rooted k (cs @ ds)) out f
           = Inr (out @ (if should_skip_file (fst f) then [] else render ds f))"
proof -
  obtain name outcome where f: "f = (name, outcome)" by (cases f)
  have v: "list_all valid_name (cs @ ds)" using assms(2,3) by simp
  have "path_join (rooted k (cs @ ds)) name = rooted k (cs @ ds @ [name])"
    using path_join_rooted [OF assms(1) v, of name] assms(4) f by simp
  moreover have "relpath cwd (rooted k (cs @ ds @ [name])) (rooted k cs) = Inr (rel_path ds name)"
    using relpath_rooted [OF assms(1,2,3), of name cwd] assms(4) f by (simp add: rel_path_def)
  ultimately show ?thesis
    unfolding f by (cases outcome) (simp_all add: visit_file_def render_def block_def error_line_def)
qed

lemma excluded_rooted:
  assumes "list_all valid_name cs"
  shows "list_ex (\<lambda>skip_dir. skip_dir \<in> set (split_sep (CHR ''/'') (rooted k cs)))
           [''.git'', ''build'', ''.gradle'', ''.idea'', ''vendor'']
         \<longleftrightarrow> path_excluded cs"
  unfolding path_excluded_def list_ex_iff
  by (intro bex_cong refl segment_of_rooted [OF assms]) auto

lemma path_excluded_split_rooted:
  assumes "list_all valid_name cs"
  shows "path_excluded (split_sep (CHR ''/'') (rooted k cs) @ ds) \<longleftrightarrow> path_excluded (cs @ ds)"
proof -
  have "seg \<in> set (split_sep (CHR ''/'') (rooted k cs) @ ds) \<longleftrightarrow> seg \<in> set (cs @ ds)"
    if "seg \<noteq> []" for seg
    using segment_of_rooted [OF assms that, of k] by simp
  then show ?thesis
    unfolding path_excluded_def list_ex_iff by (intro bex_cong refl) auto
qed

lemma sort_key_valid:
  "list_all (\<lambda>f. valid_name (fst f)) files \<Longrightarrow> x \<in> set (sort_key fst files) \<Longrightarrow> valid_name (fst x)"
  by (simp add: list_all_iff)

lemma visit_dir_render:
  assumes "k = 1 \<or> k = 2" and "list_all valid_name cs" and "list_all valid_name ds"
      and "list_all (\<lambda>f. valid_name (fst f)) files"
  shows "visit_dir cwd (rooted k cs) out (rooted k (cs @ ds), dirs, files)
           = Inr (out @ (if path_excluded (cs @ ds) then []
                         else concat (map (render ds)
                                [f \<leftarrow> sort_key fst files. \<not> should_skip_file (fst f)])))"
proof (cases "path_excluded (cs @ ds)")
  case True
  then show ?thesis
    using excluded_rooted [of "cs @ ds" k] assms(2,3) by (simp add: visit_dir_def)
next
  case False
  have "for_each (visit_file cwd (rooted k cs) (rooted k (cs @ ds))) out (sort_key fst files)
          = Inr (out @ concat (map (\<lambda>f. if should_skip_file (fst f) then [] else render ds f)
                                 (sort_key fst files)))"
    by (rule for_each_emit) (use assms in \<open>simp add: visit_file_render sort_key_valid\<close>)
  then show ?thesis
    using False excluded_rooted [of "cs @ ds" k] assms(2,3)
    by (simp add: visit_dir_def concat_map_if_filter)
qed

lemma collect_output_included_rooted:
  assumes "k = 1 \<or> k = 2" and "list_all valid_name cs" and "valid_tree fs"
  shows "collect_output cwd (rooted k cs) fs now
           = Inr (banner now @ concat (map (\<lambda>(ds, f). render ds f) (included (rooted k cs) fs)))"
proof -
  let ?g = "\<lambda>(ds, dirs, files).
      if path_excluded (cs @ ds) then []
      else concat (map (render ds) [f \<leftarrow> sort_key fst files. \<not> should_skip_file (fst f)])"
  have step: "visit_dir cwd (rooted k cs) s (case v of (ds, t) \<Rightarrow> (foldl path_join (rooted k cs) ds, t))
                = Inr (s @ ?g v)"
    if "v \<in> set (visited fs)" for s v
  proof -
    obtain ds dirs files where v: "v = (ds, dirs, files)" by (cases v)
    have ok: "list_all valid_name ds" "list_all (\<lambda>f. valid_name (fst f)) files"
      using visited_valid(1) [OF assms(3), of ds dirs files] that v by simp_all
    have "foldl path_join (rooted k cs) ds = rooted k (cs @ ds)"
      using foldl_path_join_rooted [OF assms(1,2) ok(1)] .
    then show ?thesis
      using visit_dir_render [OF assms(1,2) ok, of cwd s dirs] by (simp add: v)
  qed
  have "for_each (\<lambda>s v. visit_dir cwd (rooted k cs) s
                   (case v of (ds, t) \<Rightarrow> (foldl path_join (rooted k cs) ds, t)))
          (banner now) (visited fs)
        = Inr (banner now @ concat (map ?g (visited fs)))"
    by (rule for_each_emit) (rule step)
  moreover have "concat (map ?g (visited fs))
      = concat (map (\<lambda>(ds, f). render ds f) (included (rooted k cs) fs))"
  proof -
    have "concat (map ?g vs)
      = concat (map (\<lambda>(ds, f). render ds f)
          (concat (map (\<lambda>(ds, dirs, files).
                    map (Pair ds) [f \<leftarrow> sort_key fst files. \<not> should_skip_file (fst f)])
               [v \<leftarrow> vs. \<not> path_excluded (split_sep (CHR ''/'') (rooted k cs) @ fst v)])))" for vs
      by (induction vs)
         (auto simp: path_excluded_split_rooted [OF assms(2)] comp_def case_prod_unfold)
    then show ?thesis by (simp add: included_def)
  qed
  ultimately show ?thesis
    by (simp add: collect_output_def os_walk_visited for_each_map)
qed

lemma collect_output_included:
  assumes "valid_tree fs" and "abs_normal start_path"
  shows "collect_output cwd start_path fs now
           = Inr (banner now @ concat (map (\<lambda>(ds, f). render ds f) (included start_path fs)))"
proof -
  obtain k cs where "k = 1 \<or> k = 2" "list_all valid_name cs" "start_path = rooted k cs"
    using abs_normal_rooted [OF assms(2)] by blast
  then show ?thesis using collect_output_included_rooted [OF _ _ assms(1)] by simp
qed

subsection \<open>Which files are included\<close>

lemma file_in_Nil: "file_in es [] f \<longleftrightarrow> f \<in> set (filenames es)"
  by (induction es rule: filenames.induct) auto

lemma visited_subdirs_not_start: "(ds, t) \<in> set (visited_subdirs es) \<Longrightarrow> ds \<noteq> []"
  by (induction es rule: filenames.induct) (auto split: if_splits)

lemma visited_file_at:
  "(\<exists>dirs files. (ds, dirs, files) \<in> set (visited fs) \<and> f \<in> set files)
     \<longleftrightarrow> file_at fs ds f \<and> (\<forall>d \<in> set ds. \<not> should_skip_directory d)"
  "(\<exists>dirs files. (ds, dirs, files) \<in> set (visited_subdirs es) \<and> f \<in> set files)
     \<longleftrightarrow> ds \<noteq> [] \<and> file_in es ds f \<and> (\<forall>d \<in> set ds. \<not> should_skip_directory d)"
proof (induction fs and es arbitrary: ds and ds rule: visited_visited_subdirs.induct)
  case 1
  show ?case by simp
next
  case (2 es)
  show ?case
  proof (cases ds)
    case Nil
    then show ?thesis using visited_subdirs_not_start [of "[]" _ es] by (auto simp: file_in_Nil)
  next
    case (Cons d ds')
    then show ?thesis using 2 [of ds] by auto
  qed
next
  case 3
  show ?case by simp
next
  case (4 name outcome es)
  then show ?case by auto
next
  case (5 name sub es)
  show ?case
  proof (cases ds)
    case Nil
    then show ?thesis using visited_subdirs_not_start [of "[]" _ es] by auto
  next
    case (Cons d ds')
    have a: "(\<exists>dirs files. (ds, dirs, files) \<in> set (map (\<lambda>(ds, t). (name # ds, t)) (visited sub))
                \<and> f \<in> set files)
          \<longleftrightarrow> d = name \<and> (\<exists>dirs files. (ds', dirs, files) \<in> set (visited sub) \<and> f \<in> set files)"
      unfolding Cons by force
    show ?thesis
    proof (cases "should_skip_directory name")
      case True
      then show ?thesis using "5.IH"(2) [of ds] Cons by auto
    next
      case False
      have "(\<exists>dirs files. (ds, dirs, files) \<in> set (visited_subdirs (Dir name sub # es)) \<and> f \<in> set files)
          \<longleftrightarrow> (\<exists>dirs files. (ds, dirs, files) \<in> set (map (\<lambda>(ds, t). (name # ds, t)) (visited sub))
                \<and> f \<in> set files)
            \<or> (\<exists>dirs files. (ds, dirs, files) \<in> set (visited_subdirs es) \<and> f \<in> set files)"
      proof -
        have s: "visited_subdirs (Dir name sub # es)
                   = map (\<lambda>(ds, t). (name # ds, t)) (visited sub) @ visited_subdirs es"
          using False by simp
        show ?thesis unfolding s set_append Un_iff by blast
      qed
      then show ?thesis
        unfolding a "5.IH"(1) [OF False, of ds'] "5.IH"(2) [of ds]
        using False Cons by auto
    qed
  qed
qed

lemma included_iff:
  "(ds, f) \<in> set (included start_path fs) \<longleftrightarrow>
     file_at fs ds f \<and> (\<forall>d \<in> set ds. \<not> should_skip_directory d)
     \<and> \<not> path_excluded (split_sep (CHR ''/'') start_path @ ds) \<and> \<not> should_skip_file (fst f)"
proof -
  have "(ds, f) \<in> set (included start_path fs) \<longleftrightarrow>
      (\<exists>dirs files. (ds, dirs, files) \<in> set (visited fs) \<and> f \<in> set files)
      \<and> \<not> path_excluded (split_sep (CHR ''/'') start_path @ ds) \<and> \<not> should_skip_file (fst f)"
    unfolding included_def by force
  then show ?thesis unfolding visited_file_at(1) by blast
qed

subsection \<open>Blocks in the buffer and in the text\<close>

lemma rendered_item_present:
  assumes "(ds, f) \<in> set items"
  shows "\<exists>before after. concat (map (\<lambda>(ds, f). render ds f) items) = before @ render ds f @ after"
proof -
  obtain xs ys where "items = xs @ (ds, f) # ys"
    using split_list [OF assms] by blast
  then show ?thesis by auto
qed

lemma str_join_append:
  "xs \<noteq> [] \<Longrightarrow> ys \<noteq> [] \<Longrightarrow> str_join sep (xs @ ys) = str_join sep xs @ sep @ str_join sep ys"
  by (induction sep xs rule: str_join.induct) (simp_all add: str_join_Cons)

lemma sublist_str_join:
  assumes "ys \<noteq> []"
  shows "sublist (str_join sep ys) (str_join sep (xs @ ys @ zs))"
proof -
  have 1: "sublist (str_join sep ys) (str_join sep (ys @ zs))"
    using assms str_join_append [of ys zs sep] by (cases "zs = []") auto
  have "str_join sep (xs @ ys @ zs) = str_join sep xs @ sep @ str_join sep (ys @ zs)" if "xs \<noteq> []"
    using str_join_append [of xs "ys @ zs" sep] that assms by simp
  then show ?thesis
    using 1 by (cases "xs = []") (auto simp: sublist_append)
qed

subsection \<open>Files that are read\<close>

lemma included_in_output:
  assumes "valid_tree fs" and "abs_normal start_path" and "(ds, f) \<in> set (included start_path fs)"
  shows "\<exists>before after. collect_output cwd start_path fs now = Inr (before @ render ds f @ after)"
proof -
  obtain b a where
    "concat (map (\<lambda>(ds, f). render ds f) (included start_path fs)) = b @ render ds f @ a"
    using rendered_item_present [OF assms(3)] by blast
  then have "collect_output cwd start_path fs now = Inr ((banner now @ b) @ render ds f @ a)"
    using collect_output_included [OF assms(1,2)] by simp
  then show ?thesis by blast
qed

lemma output_in_report:
  assumes "collect_output cwd start_path fs now = Inr (before @ segs @ after)" and "segs \<noteq> []"
  shows "\<exists>report. collect_code cwd start_path fs now = Inr report \<and> sublist (str_join nl segs) report"
  using assms sublist_str_join [OF assms(2), of nl before after] by (simp add: collect_code_def)

lemma visit_file_readable:
  assumes "\<not> should_skip_file name" and "relpath cwd (path_join root name) start_path = Inr rel"
  shows "visit_file cwd start_path root output (name, Inr content)
           = Inr (output @ [''File: '' @ rel, replicate 80 (CHR ''=''), content,
                            nl @ replicate 80 (CHR ''='') @ nl @ nl])"
  using assms by (simp add: visit_file_def)

lemma visit_file_unreadable:
  assumes "\<not> should_skip_file name" and "relpath cwd (path_join root name) start_path = Inr rel"
  shows "visit_file cwd start_path root output (name, Inl msg)
           = Inr (output @ [''Error reading '' @ rel @ '': '' @ msg @ nl])"
  using assms by (simp add: visit_file_def)

text \<open>
  Claim C7. A file that is not skipped and is read adds four segments to the buffer, in
  this order: \<open>File: \<close> and the path that \<open>relpath\<close> gives, a line of eighty \<open>=\<close>, the text
  read, and a line of eighty \<open>=\<close> between line breaks. For a tree of valid names under a
  normalised absolute start path, every readable file below directories that are neither
  pruned nor excluded has this block in the final buffer, and its text in the report, with
  its path relative to the start.
\<close>

theorem readable_file_gets_block:
  assumes "valid_tree fs" and "abs_normal start_path"
      and "file_at fs ds (name, Inr content)"
      and "\<forall>d \<in> set ds. \<not> should_skip_directory d"
      and "\<not> path_excluded (split_sep (CHR ''/'') start_path @ ds)"
      and "\<not> should_skip_file name"
  shows "(\<forall>root output rel. relpath cwd (path_join root name) start_path = Inr rel \<longrightarrow>
            visit_file cwd start_path root output (name, Inr content)
              = Inr (output @ [''File: '' @ rel, replicate 80 (CHR ''=''), content,
                               nl @ replicate 80 (CHR ''='') @ nl @ nl]))
       \<and> (\<exists>before after. collect_output cwd start_path fs now
              = Inr (before @ [''File: '' @ rel_path ds name, replicate 80 (CHR ''=''), content,
                               nl @ replicate 80 (CHR ''='') @ nl @ nl] @ after))
       \<and> (\<exists>report. collect_code cwd start_path fs now = Inr report
              \<and> sublist (''File: '' @ rel_path ds name @ nl @ replicate 80 (CHR ''='') @ nl
                          @ content @ nl @ nl @ replicate 80 (CHR ''='') @ nl @ nl) report)"
proof -
  have "(ds, name, Inr content) \<in> set (included start_path fs)"
    using assms(3-6) by (simp add: included_iff)
  then obtain b a where
    out: "collect_output cwd start_path fs now = Inr (b @ render ds (name, Inr content) @ a)"
    using included_in_output [OF assms(1,2)] by blast
  have r: "render ds (name, Inr content)
           = [''File: '' @ rel_path ds name, replicate 80 (CHR ''=''), content,
              nl @ replicate 80 (CHR ''='') @ nl @ nl]"
    by (simp add: render_def block_def)
  have "\<exists>report. collect_code cwd start_path fs now = Inr report
          \<and> sublist (str_join nl (render ds (name, Inr content))) report"
    by (rule output_in_report [OF out]) (simp add: r)
  then show ?thesis
    using out visit_file_readable [OF assms(6)] unfolding r by auto
qed

theorem readable_file_gets_block_witness:
  "valid_tree (Some [Dir ''src'' (Some [File ''main.txt'' (Inr ''hello'')])])
   \<and> abs_normal ''/home/u/proj''
   \<and> file_at (Some [Dir ''src'' (Some [File ''main.txt'' (Inr ''hello'')])]) [''src'']
        (''main.txt'', Inr ''hello'')
   \<and> \<not> should_skip_directory ''src''
   \<and> \<not> path_excluded (split_sep (CHR ''/'') ''/home/u/proj'' @ [''src''])
   \<and> \<not> should_skip_file ''main.txt''
   \<and> (\<exists>before after.
        collect_output ''/home/u/proj'' ''/home/u/proj''
          (Some [Dir ''src'' (Some [File ''main.txt'' (Inr ''hello'')])]) ''2024-01-01 10:00:00''
        = Inr (before @ [''File: src/main.txt'', replicate 80 (CHR ''=''), ''hello'',
                         nl @ replicate 80 (CHR ''='') @ nl @ nl] @ after))"
proof -
  have 1: "valid_tree (Some [Dir ''src'' (Some [File ''main.txt'' (Inr ''hello'')])])"
    by (simp add: valid_name_def)
  have 2: "abs_normal ''/home/u/proj''" by code_simp
  have 3: "file_at (Some [Dir ''src'' (Some [File ''main.txt'' (Inr ''hello'')])]) [''src'']
        (''main.txt'', Inr ''hello'')" by simp
  have 4: "\<forall>d \<in> set [''src'']. \<not> should_skip_directory d" by (simp add: should_skip_directory_def)
  have 5: "\<not> path_excluded (split_sep (CHR ''/'') ''/home/u/proj'' @ [''src''])" by code_simp
  have 6: "\<not> should_skip_file ''main.txt''" by code_simp
  have 7: "rel_path [''src''] ''main.txt'' = ''src/main.txt''" by (simp add: rel_path_def)
  show ?thesis
    using 1 2 3 4 5 6
      readable_file_gets_block [OF 1 2 3 4 5 6, of "''/home/u/proj''" "''2024-01-01 10:00:00''"]
    unfolding 7 by simp
qed



text \<open>
  Claim C4. For a tree of valid names under a normalised absolute start path the run
  returns a buffer, never an error: the banner, then, for each file that passes the
  directory and file filters, in order, its block when it is read and the single line
  \<open>Error reading <relative path>: <message>\<close> when reading it raises. Which files are in
  that list depends on their place and name only, so a file that cannot be read takes
  nothing away from the others.
\<close>

theorem read_error_is_one_line:
  assumes "valid_tree fs" and "abs_normal start_path"
  shows "collect_output cwd start_path fs now
           = Inr (banner now @
                  concat (map (\<lambda>(ds, name, outcome).
                                 case outcome of
                                   Inl msg \<Rightarrow> [''Error reading '' @ rel_path ds name @ '': '' @ msg @ nl]
                                 | Inr content \<Rightarrow> block (rel_path ds name) content)
                            (included start_path fs)))
       \<and> (\<forall>ds name outcome.
             (ds, name, outcome) \<in> set (included start_path fs) \<longleftrightarrow>
               file_at fs ds (name, outcome) \<and> (\<forall>d \<in> set ds. \<not> should_skip_directory d)
               \<and> \<not> path_excluded (split_sep (CHR ''/'') start_path @ ds)
               \<and> \<not> should_skip_file name)
       \<and> (\<forall>root output name msg rel.
             \<not> should_skip_file name \<and> relpath cwd (path_join root name) start_path = Inr rel \<longrightarrow>
             visit_file cwd start_path root output (name, Inl msg)
               = Inr (output @ [''Error reading '' @ rel @ '': '' @ msg @ nl]))"
proof -
  have "(\<lambda>(ds, f). render ds f)
          = (\<lambda>(ds, name, outcome).
               case outcome of
                 Inl msg \<Rightarrow> [''Error reading '' @ rel_path ds name @ '': '' @ msg @ nl]
               | Inr content \<Rightarrow> block (rel_path ds name) content)"
    by (auto simp: fun_eq_iff render_def error_line_def split: sum.splits)
  then show ?thesis
    using collect_output_included [OF assms, of cwd now] visit_file_unreadable
    by (simp add: included_iff)
qed

theorem read_error_is_one_line_witness:
  "valid_tree (Some [File ''a.txt'' (Inl ''invalid start byte''), File ''b.txt'' (Inr ''ok'')])
   \<and> abs_normal ''/home/u/proj''
   \<and> collect_output ''/home/u/proj'' ''/home/u/proj''
        (Some [File ''a.txt'' (Inl ''invalid start byte''), File ''b.txt'' (Inr ''ok'')])
        ''2024-01-01 10:00:00''
      = Inr (banner ''2024-01-01 10:00:00'' @
             [''Error reading a.txt: invalid start byte'' @ nl,
              ''File: b.txt'', replicate 80 (CHR ''=''), ''ok'', nl @ replicate 80 (CHR ''='') @ nl @ nl])"
proof -
  have 1: "valid_tree (Some [File ''a.txt'' (Inl ''invalid start byte''), File ''b.txt'' (Inr ''ok'')])"
    by (simp add: valid_name_def)
  have 2: "abs_normal ''/home/u/proj''" by code_simp
  have 3: "included ''/home/u/proj''
             (Some [File ''a.txt'' (Inl ''invalid start byte''), File ''b.txt'' (Inr ''ok'')])
           = [([], ''a.txt'', Inl ''invalid start byte''), ([], ''b.txt'', Inr ''ok'')]"
    by code_simp
  show ?thesis
    using 1 2 read_error_is_one_line [OF 1 2, of "''/home/u/proj''" "''2024-01-01 10:00:00''"]
    unfolding 3 by (simp add: rel_path_def block_def)
qed

subsection \<open>Directories that are pruned or excluded\<close>

lemma path_excluded_iff:
  "path_excluded segs \<longleftrightarrow>
     (\<exists>d \<in> set segs. d \<in> set [''.git'', ''build'', ''.gradle'', ''.idea'', ''vendor''])"
  unfolding path_excluded_def list_ex_iff by blast

lemma path_excluded_append: "path_excluded (xs @ ys) \<longleftrightarrow> path_excluded xs \<or> path_excluded ys"
  unfolding path_excluded_iff by auto

lemma walked_paths_valid_clean:
  assumes "valid_tree fs" and "t \<in> set (os_walk prune_dirs start_path fs)"
  shows "\<exists>ds. list_all valid_name ds \<and> fst t = foldl path_join start_path ds
              \<and> (\<forall>d \<in> set ds. \<not> should_skip_directory d)"
proof -
  obtain v where v: "v \<in> set (visited fs)"
      and t: "t = (case v of (ds, x) \<Rightarrow> (foldl path_join start_path ds, x))"
    using assms(2) unfolding os_walk_visited by auto
  obtain ds dirs files where f: "v = (ds, dirs, files)" by (cases v)
  have "list_all valid_name ds"
    using visited_valid(1) [OF assms(1), of ds dirs files] v f by simp
  moreover have "fst t = foldl path_join start_path ds"
    using t f by simp
  moreover have "\<forall>d \<in> set ds. \<not> should_skip_directory d"
    using visited_clean(1) [OF v] f by simp
  ultimately show ?thesis by blast
qed

lemma rooted_inject:
  assumes "list_all valid_name xs" and "list_all valid_name ys" and "rooted k xs = rooted k ys"
  shows "xs = ys"
proof -
  have "\<not> valid_name []" by (simp add: valid_name_def)
  then have n: "xs \<noteq> [[]]" "ys \<noteq> [[]]" using assms(1,2) by auto
  have "replicate k [] @ (if xs = [] then [[]] else xs)
          = replicate k [] @ (if ys = [] then [[]] else ys)"
    using split_sep_rooted [OF assms(1), of k] split_sep_rooted [OF assms(2), of k] assms(3)
    by simp
  then have "(if xs = [] then [[]] else xs) = (if ys = [] then [[]] else ys)"
    by simp
  then show ?thesis using n by (auto split: if_splits)
qed

lemma foldl_path_join_inject:
  assumes "abs_normal start_path" and "list_all valid_name ds" and "list_all valid_name ds'"
      and "foldl path_join start_path ds = foldl path_join start_path ds'"
  shows "ds = ds'"
proof -
  obtain k cs where k: "k = 1 \<or> k = 2" and cs: "list_all valid_name cs"
      and s: "start_path = rooted k cs"
    using abs_normal_rooted [OF assms(1)] by blast
  have "rooted k (cs @ ds) = rooted k (cs @ ds')"
    using assms(4) foldl_path_join_rooted [OF k cs assms(2)] foldl_path_join_rooted [OF k cs assms(3)]
    by (simp add: s)
  then have "cs @ ds = cs @ ds'"
    using rooted_inject [of "cs @ ds" "cs @ ds'" k] cs assms(2,3) by simp
  then show ?thesis by simp
qed

text \<open>
  Claim C2. The walk enters no directory whose name \<open>should_skip_directory\<close> excludes,
  however deep. Each path it yields is the start path extended by names of directories,
  none of them excluded; and the path of a directory that lies below an excluded name, at
  any depth, is not among the paths that the walk yields. So a file with such a name (or
  one of the names of the second check) among the directories that lead to it is not among
  the files of the report, whose blocks and error lines are those of the included files
  alone.
\<close>

theorem excluded_directories_never_entered:
  assumes "valid_tree fs" and "abs_normal start_path"
  shows "(\<forall>t \<in> set (os_walk prune_dirs start_path fs).
            \<exists>ds. list_all valid_name ds \<and> fst t = foldl path_join start_path ds
                 \<and> (\<forall>d \<in> set ds. \<not> should_skip_directory d))
       \<and> (\<forall>ds. list_all valid_name ds \<and> (\<exists>d \<in> set ds. should_skip_directory d) \<longrightarrow>
              foldl path_join start_path ds \<notin> fst ` set (os_walk prune_dirs start_path fs))
       \<and> collect_output cwd start_path fs now
            = Inr (banner now @ concat (map (\<lambda>(ds, f). render ds f) (included start_path fs)))
       \<and> (\<forall>ds f. file_at fs ds f
              \<and> (\<exists>d \<in> set ds. should_skip_directory d
                     \<or> d \<in> set [''.git'', ''build'', ''.gradle'', ''.idea'', ''vendor''])
              \<longrightarrow> (ds, f) \<notin> set (included start_path fs))"
proof -
  have 1: "\<forall>t \<in> set (os_walk prune_dirs start_path fs).
            \<exists>ds. list_all valid_name ds \<and> fst t = foldl path_join start_path ds
                 \<and> (\<forall>d \<in> set ds. \<not> should_skip_directory d)"
    using walked_paths_valid_clean [OF assms(1)] by blast
  have 2: "foldl path_join start_path ds \<notin> fst ` set (os_walk prune_dirs start_path fs)"
    if v: "list_all valid_name ds" and x: "\<exists>d \<in> set ds. should_skip_directory d" for ds
  proof
    assume "foldl path_join start_path ds \<in> fst ` set (os_walk prune_dirs start_path fs)"
    then obtain t where t: "t \<in> set (os_walk prune_dirs start_path fs)"
        and e: "fst t = foldl path_join start_path ds"
      by auto
    obtain ds' where d: "list_all valid_name ds'" "fst t = foldl path_join start_path ds'"
        "\<forall>d \<in> set ds'. \<not> should_skip_directory d"
      using walked_paths_valid_clean [OF assms(1) t] by blast
    have "ds = ds'"
      using foldl_path_join_inject [OF assms(2) v d(1)] e d(2) by simp
    then show False using x d(3) by blast
  qed
  have 3: "(ds, f) \<notin> set (included start_path fs)"
    if "\<exists>d \<in> set ds. should_skip_directory d
                     \<or> d \<in> set [''.git'', ''build'', ''.gradle'', ''.idea'', ''vendor'']" for ds f
  proof -
    from that have "(\<exists>d \<in> set ds. should_skip_directory d) \<or> path_excluded ds"
      unfolding path_excluded_iff by blast
    then show ?thesis
      unfolding included_iff path_excluded_append by blast
  qed
  show ?thesis
    using 1 2 3 collect_output_included [OF assms, of cwd now] by blast
qed

theorem excluded_directories_never_entered_witness:
  "valid_tree (Some [Dir ''src'' (Some [Dir ''build'' (Some [File ''gen.txt'' (Inr ''g'')]),
                                        File ''m.txt'' (Inr ''m'')])])
   \<and> abs_normal ''/home/u/proj''
   \<and> list_all valid_name [''src'', ''build'']
   \<and> should_skip_directory ''build''
   \<and> foldl path_join ''/home/u/proj'' [''src'', ''build''] = ''/home/u/proj/src/build''
   \<and> ''/home/u/proj/src/build''
       \<notin> fst ` set (os_walk prune_dirs ''/home/u/proj''
                 (Some [Dir ''src'' (Some [Dir ''build'' (Some [File ''gen.txt'' (Inr ''g'')]),
                                           File ''m.txt'' (Inr ''m'')])]))
   \<and> collect_output ''/home/u/proj'' ''/home/u/proj''
        (Some [Dir ''src'' (Some [Dir ''build'' (Some [File ''gen.txt'' (Inr ''g'')]),
                                  File ''m.txt'' (Inr ''m'')])])
        ''2024-01-01 10:00:00''
      = Inr (banner ''2024-01-01 10:00:00'' @ block ''src/m.txt'' ''m'')
   \<and> ([''src'', ''build''], ''gen.txt'', Inr ''g'')
       \<notin> set (included ''/home/u/proj''
                 (Some [Dir ''src'' (Some [Dir ''build'' (Some [File ''gen.txt'' (Inr ''g'')]),
                                           File ''m.txt'' (Inr ''m'')])]))"
proof -
  let ?fs = "Some [Dir ''src'' (Some [Dir ''build'' (Some [File ''gen.txt'' (Inr ''g'')]),
                                      File ''m.txt'' (Inr ''m'')])]"
  have 1: "valid_tree ?fs" by (simp add: valid_name_def)
  have 2: "abs_normal ''/home/u/proj''" by code_simp
  have 3: "included ''/home/u/proj'' ?fs = [([''src''], ''m.txt'', Inr ''m'')]" by code_simp
  have 4: "list_all valid_name [''src'', ''build'']" by (simp add: valid_name_def)
  have 5: "should_skip_directory ''build''" by (simp add: should_skip_directory_def)
  have 6: "foldl path_join ''/home/u/proj'' [''src'', ''build''] = ''/home/u/proj/src/build''"
    by code_simp
  note inst = excluded_directories_never_entered [OF 1 2, of "''/home/u/proj''" "''2024-01-01 10:00:00''"]
  have a: "collect_output ''/home/u/proj'' ''/home/u/proj'' ?fs ''2024-01-01 10:00:00''
            = Inr (banner ''2024-01-01 10:00:00'' @ block ''src/m.txt'' ''m'')"
    using inst unfolding 3 by (simp add: render_def rel_path_def)
  have "foldl path_join ''/home/u/proj'' [''src'', ''build'']
          \<notin> fst ` set (os_walk prune_dirs ''/home/u/proj'' ?fs)"
    using inst 4 5 by (metis list.set_intros(1,2))
  then have b: "''/home/u/proj/src/build'' \<notin> fst ` set (os_walk prune_dirs ''/home/u/proj'' ?fs)"
    unfolding 6 .
  have c: "([''src'', ''build''], ''gen.txt'', Inr ''g'') \<notin> set (included ''/home/u/proj'' ?fs)"
    unfolding 3 by simp
  show ?thesis using 1 2 4 5 6 a b c by blast
qed

subsection \<open>Order within a directory\<close>

lemma abs_normal_start_valid:
  assumes "abs_normal start_path" and "list_all valid_name ds"
      and "list_all (\<lambda>f. valid_name (fst f)) files"
  shows "visit_dir cwd start_path out (foldl path_join start_path ds, dirs, files)
           = Inr (out @ (if path_excluded (split_sep (CHR ''/'') start_path @ ds) then []
                            else concat (map (render ds)
                                   [f \<leftarrow> sort_key fst files. \<not> should_skip_file (fst f)])))"
proof -
  obtain k cs where k: "k = 1 \<or> k = 2" and cs: "list_all valid_name cs"
      and s: "start_path = rooted k cs"
    using abs_normal_rooted [OF assms(1)] by blast
  have "foldl path_join (rooted k cs) ds = rooted k (cs @ ds)"
    using foldl_path_join_rooted [OF k cs assms(2)] .
  then show ?thesis
    using visit_dir_render [OF k cs assms(2,3), of cwd out dirs]
    by (simp add: s path_excluded_split_rooted [OF cs])
qed

lemma three_files_included:
  assumes "\<not> path_excluded (split_sep (CHR ''/'') start_path)"
      and "es \<in> set [[File ''a.txt'' a, File ''b.txt'' b, File ''z.txt'' z],
                      [File ''a.txt'' a, File ''z.txt'' z, File ''b.txt'' b],
                      [File ''b.txt'' b, File ''a.txt'' a, File ''z.txt'' z],
                      [File ''b.txt'' b, File ''z.txt'' z, File ''a.txt'' a],
                      [File ''z.txt'' z, File ''a.txt'' a, File ''b.txt'' b],
                      [File ''z.txt'' z, File ''b.txt'' b, File ''a.txt'' a]]"
  shows "included start_path (Some es) = [([], ''a.txt'', a), ([], ''b.txt'', b), ([], ''z.txt'', z)]"
proof -
  have ns: "\<not> should_skip_file ''a.txt''" "\<not> should_skip_file ''b.txt''" "\<not> should_skip_file ''z.txt''"
    by code_simp+
  show ?thesis
    using assms ns by (auto simp: included_def)
qed

text \<open>
  Claim C6. The files of one directory are sorted by name before the loop goes through
  them, so what a directory adds to the buffer is the rendering of its files that are not
  skipped, in the lexicographic order of their names. A directory that holds \<open>a.txt\<close>,
  \<open>b.txt\<close> and \<open>z.txt\<close>, listed in any order, gives the three blocks in that order.
\<close>

theorem files_in_name_order:
  assumes "abs_normal start_path"
  shows "(list_all valid_name ds \<and> list_all (\<lambda>f. valid_name (fst f)) files
            \<and> \<not> path_excluded (split_sep (CHR ''/'') start_path @ ds) \<longrightarrow>
          (\<exists>xs. sorted (map fst xs)
                \<and> set xs = {f \<in> set files. \<not> should_skip_file (fst f)}
                \<and> length xs = length [f \<leftarrow> files. \<not> should_skip_file (fst f)]
                \<and> visit_dir cwd start_path out (foldl path_join start_path ds, dirs, files)
                    = Inr (out @ concat (map (render ds) xs))))
       \<and> (\<not> path_excluded (split_sep (CHR ''/'') start_path)
            \<and> es \<in> set [[File ''a.txt'' (Inr a), File ''b.txt'' (Inr b), File ''z.txt'' (Inr z)],
                           [File ''a.txt'' (Inr a), File ''z.txt'' (Inr z), File ''b.txt'' (Inr b)],
                           [File ''b.txt'' (Inr b), File ''a.txt'' (Inr a), File ''z.txt'' (Inr z)],
                           [File ''b.txt'' (Inr b), File ''z.txt'' (Inr z), File ''a.txt'' (Inr a)],
                           [File ''z.txt'' (Inr z), File ''a.txt'' (Inr a), File ''b.txt'' (Inr b)],
                           [File ''z.txt'' (Inr z), File ''b.txt'' (Inr b), File ''a.txt'' (Inr a)]]
            \<longrightarrow>
          collect_output cwd start_path (Some es) now
            = Inr (banner now @ block ''a.txt'' a @ block ''b.txt'' b @ block ''z.txt'' z))"
proof (intro conjI impI)
  assume h: "list_all valid_name ds \<and> list_all (\<lambda>f. valid_name (fst f)) files
            \<and> \<not> path_excluded (split_sep (CHR ''/'') start_path @ ds)"
  let ?xs = "[f \<leftarrow> sort_key fst files. \<not> should_skip_file (fst f)]"
  have "sorted (map fst ?xs)" by (intro sorted_filter sorted_sort_key)
  moreover have "set ?xs = {f \<in> set files. \<not> should_skip_file (fst f)}" by auto
  moreover have "length ?xs = length [f \<leftarrow> files. \<not> should_skip_file (fst f)]"
    by (simp add: filter_sort)
  moreover have "visit_dir cwd start_path out (foldl path_join start_path ds, dirs, files)
                    = Inr (out @ concat (map (render ds) ?xs))"
    using abs_normal_start_valid [OF assms, of ds files cwd out dirs] h by simp
  ultimately show "\<exists>xs. sorted (map fst xs)
                \<and> set xs = {f \<in> set files. \<not> should_skip_file (fst f)}
                \<and> length xs = length [f \<leftarrow> files. \<not> should_skip_file (fst f)]
                \<and> visit_dir cwd start_path out (foldl path_join start_path ds, dirs, files)
                    = Inr (out @ concat (map (render ds) xs))"
    by blast
next
  assume h: "\<not> path_excluded (split_sep (CHR ''/'') start_path)
            \<and> es \<in> set [[File ''a.txt'' (Inr a), File ''b.txt'' (Inr b), File ''z.txt'' (Inr z)],
                           [File ''a.txt'' (Inr a), File ''z.txt'' (Inr z), File ''b.txt'' (Inr b)],
                           [File ''b.txt'' (Inr b), File ''a.txt'' (Inr a), File ''z.txt'' (Inr z)],
                           [File ''b.txt'' (Inr b), File ''z.txt'' (Inr z), File ''a.txt'' (Inr a)],
                           [File ''z.txt'' (Inr z), File ''a.txt'' (Inr a), File ''b.txt'' (Inr b)],
                           [File ''z.txt'' (Inr z), File ''b.txt'' (Inr b), File ''a.txt'' (Inr a)]]"
  have inc: "included start_path (Some es)
               = [([], ''a.txt'', Inr a), ([], ''b.txt'', Inr b), ([], ''z.txt'', Inr z)]"
    using h by (intro three_files_included) simp_all
  have v: "valid_tree (Some es)"
    using h by (auto simp: valid_name_def)
  show "collect_output cwd start_path (Some es) now
          = Inr (banner now @ block ''a.txt'' a @ block ''b.txt'' b @ block ''z.txt'' z)"
    using collect_output_included [OF v assms, of cwd now] unfolding inc
    by (simp add: render_def rel_path_def)
qed

theorem files_in_name_order_witness:
  "abs_normal ''/home/u/proj''
   \<and> \<not> path_excluded (split_sep (CHR ''/'') ''/home/u/proj'')
   \<and> collect_output ''/home/u/proj'' ''/home/u/proj''
        (Some [File ''z.txt'' (Inr ''3''), File ''a.txt'' (Inr ''1''), File ''b.txt'' (Inr ''2'')])
        ''2024-01-01 10:00:00''
      = Inr (banner ''2024-01-01 10:00:00''
             @ block ''a.txt'' ''1'' @ block ''b.txt'' ''2'' @ block ''z.txt'' ''3'')"
proof -
  have 1: "abs_normal ''/home/u/proj''" by code_simp
  have 2: "\<not> path_excluded (split_sep (CHR ''/'') ''/home/u/proj'')" by code_simp
  show ?thesis
    using 1 2
      files_in_name_order [OF 1, of "[]" "[]" "''/home/u/proj''" "[]" "[]"
        "[File ''z.txt'' (Inr ''3''), File ''a.txt'' (Inr ''1''), File ''b.txt'' (Inr ''2'')]"
        "''1''" "''2''" "''3''" "''2024-01-01 10:00:00''"]
    by simp
qed

subsection \<open>The end-to-end example\<close>

lemma sublist_skip_left:
  assumes "needle \<noteq> []" and "hd needle \<notin> set mid" and "sublist needle (mid @ b)"
  shows "sublist needle b"
proof -
  consider "sublist needle mid" | "sublist needle b"
    | y1 y2 where "needle = y1 @ y2" "suffix y1 mid" "prefix y2 b"
    using assms(3) unfolding sublist_append by blast
  then show ?thesis
  proof cases
    case 1
    then have "set needle \<subseteq> set mid" by (rule set_mono_sublist)
    then show ?thesis using assms(1,2) hd_in_set by blast
  next
    case 2
    then show ?thesis .
  next
    case 3
    show ?thesis
    proof (cases "y1 = []")
      case True
      then show ?thesis using 3 by auto
    next
      case False
      then have "hd needle \<in> set y1" using 3(1) by simp
      moreover have "set y1 \<subseteq> set mid" using 3(2) by (rule set_mono_suffix)
      ultimately show ?thesis using assms(2) by blast
    qed
  qed
qed

lemma sublist_split_at_foreign:
  assumes "a \<noteq> []" and "last a \<notin> set needle" and "sublist needle (a @ c)"
  shows "sublist needle a \<or> sublist needle c"
proof -
  consider "sublist needle a" | "sublist needle c"
    | x1 x2 where "needle = x1 @ x2" "suffix x1 a" "prefix x2 c"
    using assms(3) unfolding sublist_append by blast
  then show ?thesis
  proof cases
    case 3
    show ?thesis
    proof (cases "x1 = []")
      case True
      then show ?thesis using 3 by auto
    next
      case False
      obtain p where "a = p @ x1" using 3(2) by (auto simp: suffix_def)
      then have "last a = last x1" using False by simp
      then have "last a \<in> set needle" using False 3(1) by simp
      then show ?thesis using assms(2) by simp
    qed
  qed simp_all
qed

lemma sublist_through_middle:
  assumes "needle \<noteq> []" and "hd needle \<notin> set mid" and "a \<noteq> []" and "last a \<notin> set needle"
      and "\<not> sublist needle a" and "\<not> sublist needle b"
  shows "\<not> sublist needle (a @ mid @ b)"
  using sublist_split_at_foreign [OF assms(3,4), of "mid @ b"] sublist_skip_left [OF assms(1,2), of b]
    assms(5,6) by blast

lemma example_included:
  assumes "\<not> path_excluded (split_sep (CHR ''/'') start_path)" and "es \<in> set example_listings"
  shows "included start_path (Some es) = [([''src''], ''main.txt'', Inr ''hello'')]"
proof -
  have f: "should_skip_file ''Cargo.lock''" "\<not> should_skip_file ''main.txt''"
    by code_simp+
  have d: "should_skip_directory ''build''" "\<not> should_skip_directory ''src''"
    by code_simp+
  have p: "\<not> path_excluded [''src'']" "\<not> path_excluded []" by code_simp+
  show ?thesis
    using assms f d p
    by (auto simp: example_listings_def Let_def included_def path_excluded_append)
qed

lemma example_valid: "es \<in> set example_listings \<Longrightarrow> valid_tree (Some es)"
  by (auto simp: example_listings_def Let_def valid_name_def)

lemma example_report:
  assumes "abs_normal start_path"
      and "\<not> path_excluded (split_sep (CHR ''/'') start_path)"
      and "es \<in> set example_listings"
  shows "collect_code cwd start_path (Some es) now
           = Inr (''Code consolidated on: '' @ now @ nl @ nl
                  @ ''Project structure and contents:'' @ nl @ nl
                  @ replicate 80 (CHR ''='') @ nl @ nl @ nl @ main_txt_block @ nl)"
  using collect_output_included [OF example_valid [OF assms(3)] assms(1), of cwd now]
  unfolding example_included [OF assms(2,3)]
  by (simp add: collect_code_def banner_def render_def block_def rel_path_def main_txt_block_def)

lemma example_no_mention:
  assumes "set now \<subseteq> set ''0123456789-:. ''"
      and "needle = ''ignored.txt'' \<or> needle = ''Cargo.lock''"
  shows "\<not> sublist needle (''Code consolidated on: '' @ now @ nl @ nl
                  @ ''Project structure and contents:'' @ nl @ nl
                  @ replicate 80 (CHR ''='') @ nl @ nl @ nl @ main_txt_block @ nl)"
proof (rule sublist_through_middle)
  show "needle \<noteq> []" using assms(2) by auto
  show "hd needle \<notin> set now" using assms by auto
  show "''Code consolidated on: '' \<noteq> []" by simp
  show "last ''Code consolidated on: '' \<notin> set needle" using assms(2) by auto
  have "\<not> sublist ''ignored.txt'' ''Code consolidated on: ''"
       "\<not> sublist ''Cargo.lock'' ''Code consolidated on: ''"
    by code_simp+
  then show "\<not> sublist needle ''Code consolidated on: ''" using assms(2) by auto
  have "\<not> sublist ''ignored.txt'' (nl @ nl
                  @ ''Project structure and contents:'' @ nl @ nl
                  @ replicate 80 (CHR ''='') @ nl @ nl @ nl @ main_txt_block @ nl)"
       "\<not> sublist ''Cargo.lock'' (nl @ nl
                  @ ''Project structure and contents:'' @ nl @ nl
                  @ replicate 80 (CHR ''='') @ nl @ nl @ nl @ main_txt_block @ nl)"
    by code_simp+
  then show "\<not> sublist needle (nl @ nl
                  @ ''Project structure and contents:'' @ nl @ nl
                  @ replicate 80 (CHR ''='') @ nl @ nl @ nl @ main_txt_block @ nl)"
    using assms(2) by auto
qed

text \<open>
  Claim C1, as amended. The start directory holds \<open>src/main.txt\<close> with the text \<open>hello\<close>,
  \<open>build/ignored.txt\<close> and \<open>Cargo.lock\<close>, listed in any order. When the start path is
  absolute and normalised and none of its own segments is \<open>.git\<close>, \<open>build\<close>, \<open>.gradle\<close>,
  \<open>.idea\<close> or \<open>vendor\<close>, the report is the banner followed by the block of
  \<open>src/main.txt\<close> with \<open>hello\<close>, and neither \<open>ignored.txt\<close> nor \<open>Cargo.lock\<close> occurs
  anywhere in it (the timestamp being made of digits and punctuation).
\<close>

theorem end_to_end_example:
  assumes "abs_normal start_path"
      and "\<not> path_excluded (split_sep (CHR ''/'') start_path)"
      and "es \<in> set example_listings"
      and "set now \<subseteq> set ''0123456789-:. ''"
  shows "collect_code cwd start_path (Some es) now
           = Inr (''Code consolidated on: '' @ now @ nl @ nl
                  @ ''Project structure and contents:'' @ nl @ nl
                  @ replicate 80 (CHR ''='') @ nl @ nl @ nl @ main_txt_block @ nl)
       \<and> mentions main_txt_block (collect_code cwd start_path (Some es) now)
       \<and> \<not> mentions ''ignored.txt'' (collect_code cwd start_path (Some es) now)
       \<and> \<not> mentions ''Cargo.lock'' (collect_code cwd start_path (Some es) now)"
proof -
  note r = example_report [OF assms(1-3), of cwd now]
  have "sublist main_txt_block (''Code consolidated on: '' @ now @ nl @ nl
                  @ ''Project structure and contents:'' @ nl @ nl
                  @ replicate 80 (CHR ''='') @ nl @ nl @ nl @ main_txt_block @ nl)"
    unfolding sublist_def
    by (rule exI [of _ "''Code consolidated on: '' @ now @ nl @ nl
                  @ ''Project structure and contents:'' @ nl @ nl
                  @ replicate 80 (CHR ''='') @ nl @ nl @ nl"], rule exI [of _ nl]) simp
  then show ?thesis
    using r example_no_mention [OF assms(4), of "''ignored.txt''"]
      example_no_mention [OF assms(4), of "''Cargo.lock''"]
    by (simp add: mentions_def)
qed

theorem end_to_end_example_witness:
  "abs_normal ''/home/u/proj''
   \<and> \<not> path_excluded (split_sep (CHR ''/'') ''/home/u/proj'')
   \<and> example_entries \<in> set example_listings
   \<and> set ''2024-01-01 10:00:00.123456'' \<subseteq> set ''0123456789-:. ''
   \<and> mentions main_txt_block
        (collect_code ''/home/u/proj'' ''/home/u/proj'' (Some example_entries) ''2024-01-01 10:00:00.123456'')
   \<and> \<not> mentions ''ignored.txt''
        (collect_code ''/home/u/proj'' ''/home/u/proj'' (Some example_entries) ''2024-01-01 10:00:00.123456'')
   \<and> \<not> mentions ''Cargo.lock''
        (collect_code ''/home/u/proj'' ''/home/u/proj'' (Some example_entries) ''2024-01-01 10:00:00.123456'')"
proof -
  have 1: "abs_normal ''/home/u/proj''" by code_simp
  have 2: "\<not> path_excluded (split_sep (CHR ''/'') ''/home/u/proj'')" by code_simp
  have 3: "example_entries \<in> set example_listings"
    by (simp add: example_entries_def example_listings_def Let_def)
  have 4: "set ''2024-01-01 10:00:00.123456'' \<subseteq> set ''0123456789-:. ''" by simp
  show ?thesis
    using 1 2 3 4 end_to_end_example [OF 1 2 3 4, of "''/home/u/proj''"] by blast
qed

text \<open>
  The claim as it is written fails when the start path itself has an excluded segment:
  below \<open>/home/build/proj\<close> the same tree gives a report without \<open>src/main.txt\<close>.
\<close>

theorem end_to_end_example_counterexample:
  "\<not> mentions ''File: src/main.txt''
       (collect_code ''/home/build/proj'' ''/home/build/proj'' (Some example_entries)
          ''2024-01-01 10:00:00.123456'')"
  by code_simp

subsection \<open>Errors of the whole run\<close>

lemma collect_code_unlistable:
  "collect_code cwd start_path None now = Inr (str_join nl (banner now))"
  by (simp add: collect_code_def collect_output_def)

lemma exit_status_error: "main w = Inl e \<Longrightarrow> exit_status w \<noteq> 0"
  by (simp add: exit_status_def)

text \<open>
  Claim C3, as amended. An error of the final write, of finding the working directory or
  of the final \<open>print\<close> is not caught: it is the result of the run, whose exit status is
  then not zero. A start directory that cannot be listed is no error at all: the walk
  yields nothing, \<open>collect_code\<close> returns the banner alone, and an error of the run can only
  come from \<open>os.getcwd\<close>, the write or the \<open>print\<close>. When these succeed the report is
  written and the message printed, and the exit status is 0, or 120 when the flush of the
  standard streams fails at exit.
\<close>

theorem structural_errors:
  "(getcwd w = Inl e \<longrightarrow> main w = Inl e \<and> exit_status w \<noteq> 0)
   \<and> (getcwd w = Inr d \<and> collect_code d d (tree w) (clock w) = Inr output
        \<and> write_error w ''project_code_consolidated.txt'' output = Some e
        \<longrightarrow> main w = Inl e \<and> exit_status w \<noteq> 0)
   \<and> (getcwd w = Inr d \<and> collect_code d d (tree w) (clock w) = Inr output
        \<and> write_error w ''project_code_consolidated.txt'' output = None
        \<and> print_error w (''Code has been consolidated into project_code_consolidated.txt'' @ nl)
            = Some e
        \<longrightarrow> main w = Inl e \<and> exit_status w \<noteq> 0)
   \<and> (tree w = None \<longrightarrow>
        collect_code d d (tree w) (clock w) = Inr (str_join nl (banner (clock w))))
   \<and> (tree w = None \<and> main w = Inl e \<longrightarrow>
        getcwd w = Inl e
        \<or> write_error w ''project_code_consolidated.txt'' (str_join nl (banner (clock w))) = Some e
        \<or> print_error w (''Code has been consolidated into project_code_consolidated.txt'' @ nl)
            = Some e)
   \<and> (getcwd w = Inr d \<and> tree w = None
        \<and> write_error w ''project_code_consolidated.txt'' (str_join nl (banner (clock w))) = None
        \<and> print_error w (''Code has been consolidated into project_code_consolidated.txt'' @ nl)
            = None
        \<longrightarrow> main w = Inr \<lparr>written_name = ''project_code_consolidated.txt'',
                           written_text = str_join nl (banner (clock w)),
                           printed = ''Code has been consolidated into project_code_consolidated.txt''
                                     @ nl\<rparr>
            \<and> exit_status w = (if flush_fails w (main w) then 120 else 0))"
proof -
  have 1: "getcwd w = Inl e \<Longrightarrow> main w = Inl e"
    by (simp add: main_def)
  have 2: "getcwd w = Inr d \<and> collect_code d d (tree w) (clock w) = Inr output
        \<and> write_error w ''project_code_consolidated.txt'' output = Some e
        \<Longrightarrow> main w = Inl e"
    by (simp add: main_def)
  have 3: "getcwd w = Inr d \<and> collect_code d d (tree w) (clock w) = Inr output
        \<and> write_error w ''project_code_consolidated.txt'' output = None
        \<and> print_error w (''Code has been consolidated into project_code_consolidated.txt'' @ nl)
            = Some e
        \<Longrightarrow> main w = Inl e"
    by (simp add: main_def)
  have 4: "tree w = None \<Longrightarrow>
        collect_code d d (tree w) (clock w) = Inr (str_join nl (banner (clock w)))"
    by (simp add: collect_code_unlistable)
  have 5: "tree w = None \<and> main w = Inl e \<Longrightarrow>
        getcwd w = Inl e
        \<or> write_error w ''project_code_consolidated.txt'' (str_join nl (banner (clock w))) = Some e
        \<or> print_error w (''Code has been consolidated into project_code_consolidated.txt'' @ nl)
            = Some e"
    by (auto simp: main_def collect_code_unlistable split: sum.splits option.splits)
  have 6: "getcwd w = Inr d \<and> tree w = None
        \<and> write_error w ''project_code_consolidated.txt'' (str_join nl (banner (clock w))) = None
        \<and> print_error w (''Code has been consolidated into project_code_consolidated.txt'' @ nl)
            = None
        \<Longrightarrow> main w = Inr \<lparr>written_name = ''project_code_consolidated.txt'',
                           written_text = str_join nl (banner (clock w)),
                           printed = ''Code has been consolidated into project_code_consolidated.txt''
                                     @ nl\<rparr>"
    by (simp add: main_def collect_code_unlistable)
  have 7: "main w = Inr fin \<Longrightarrow> exit_status w = (if flush_fails w (main w) then 120 else 0)" for fin
    by (simp add: exit_status_def)
  show ?thesis
    using 1 2 3 4 5 6 7 exit_status_error [of w e] by blast
qed

theorem structural_errors_witness:
  "getcwd (unlistable_world\<lparr>write_error := (\<lambda>name text. Some (OSError ''Permission denied''))\<rparr>)
     = Inr ''/srv/app''
   \<and> main (unlistable_world\<lparr>write_error := (\<lambda>name text. Some (OSError ''Permission denied''))\<rparr>)
     = Inl (OSError ''Permission denied'')
   \<and> exit_status
       (unlistable_world\<lparr>write_error := (\<lambda>name text. Some (OSError ''Permission denied''))\<rparr>)
     \<noteq> 0
   \<and> exit_status unlistable_world = 0
   \<and> exit_status (unlistable_world\<lparr>flush_fails := (\<lambda>r. True)\<rparr>) = 120"
proof -
  let ?w = "unlistable_world\<lparr>write_error := (\<lambda>name text. Some (OSError ''Permission denied''))\<rparr>"
  let ?v = "unlistable_world\<lparr>flush_fails := (\<lambda>r. True)\<rparr>"
  have 1: "getcwd ?w = Inr ''/srv/app''" by (simp add: unlistable_world_def)
  have 2: "collect_code ''/srv/app'' ''/srv/app'' (tree ?w) (clock ?w)
             = Inr (str_join nl (banner (clock ?w)))"
    by (simp add: unlistable_world_def collect_code_unlistable)
  have 3: "write_error ?w ''project_code_consolidated.txt'' (str_join nl (banner (clock ?w)))
             = Some (OSError ''Permission denied'')"
    by simp
  have 4: "getcwd unlistable_world = Inr ''/srv/app''" "tree unlistable_world = None"
    "write_error unlistable_world ''project_code_consolidated.txt''
       (str_join nl (banner (clock unlistable_world))) = None"
    "print_error unlistable_world
       (''Code has been consolidated into project_code_consolidated.txt'' @ nl) = None"
    "\<not> flush_fails unlistable_world (main unlistable_world)"
    by (simp_all add: unlistable_world_def)
  have 5: "getcwd ?v = Inr ''/srv/app''" "tree ?v = None"
    "write_error ?v ''project_code_consolidated.txt'' (str_join nl (banner (clock ?v))) = None"
    "print_error ?v (''Code has been consolidated into project_code_consolidated.txt'' @ nl) = None"
    "flush_fails ?v (main ?v)"
    by (simp_all add: unlistable_world_def)
  have a: "main ?w = Inl (OSError ''Permission denied'') \<and> exit_status ?w \<noteq> 0"
    using 1 2 3
      structural_errors [of ?w "OSError ''Permission denied''" "''/srv/app''"
        "str_join nl (banner (clock ?w))"]
    by blast
  have b: "exit_status unlistable_world = 0"
    using 4 structural_errors [of unlistable_world "OSError ''Permission denied''" "''/srv/app''" "[]"]
    by simp
  have c: "exit_status ?v = 120"
    using 5 structural_errors [of ?v "OSError ''Permission denied''" "''/srv/app''" "[]"]
    by simp
  show ?thesis using 1 a b c by blast
qed

text \<open>
  The claim as it is written fails for a start directory that cannot be listed: \<open>os.walk\<close>
  passes over the error, and the run ends with status 0.
\<close>

theorem structural_errors_counterexample:
  "tree unlistable_world = None \<and> exit_status unlistable_world = 0"
  by (simp add: unlistable_world_def main_def exit_status_def collect_code_unlistable)

end
